theory Spec2Isabelle
  imports Complex_Main "HOL-Library.Log_Nat" "HOL-Library.Word" "HOL-Library.Sublist"
begin

section \<open>Exceptions\<close>

text \<open>
  Every Python exception that the preprocessing script can meet is a value; all of them
  are subclasses of \<^verbatim>\<open>Exception\<close>. The string is what \<^verbatim>\<open>str(e)\<close> prints.
\<close>

datatype exn =
    CvError string
  | ValueError string
  | TypeError string
  | ZeroDivisionError string
  | FileExistsError string
  | FileNotFoundError string
  | NotADirectoryError string
  | PermissionError string
  | OSError string

fun str_exn :: "exn \<Rightarrow> string" where
  "str_exn (CvError m) = m"
| "str_exn (ValueError m) = m"
| "str_exn (TypeError m) = m"
| "str_exn (ZeroDivisionError m) = m"
| "str_exn (FileExistsError m) = m"
| "str_exn (FileNotFoundError m) = m"
| "str_exn (NotADirectoryError m) = m"
| "str_exn (PermissionError m) = m"
| "str_exn (OSError m) = m"

definition is_cv_error :: "exn + 'a \<Rightarrow> bool" where
  \<comment> \<open>the call raised \<^verbatim>\<open>cv2.error\<close>\<close>
  "is_cv_error r = (case r of Inl (CvError m) \<Rightarrow> True | _ \<Rightarrow> False)"

section \<open>Double precision arithmetic\<close>

text \<open>
  Python's \<^verbatim>\<open>float\<close> and NumPy's \<^verbatim>\<open>float64\<close> are IEEE 754 doubles. A finite double is
  modelled by the rational number it denotes, and every arithmetic operation rounds its
  exact result to the nearest number with a 53-bit significand, ties to even (\<open>fl\<close>).
  The exponent range is not modelled: the quantities of this program are quotients and
  products of image dimensions and 8-bit pixel values. The only non-finite value that
  occurs is the NaN that \<^verbatim>\<open>np.mean\<close> returns for an empty array: it is \<open>None\<close>.
\<close>

definition round_half_even :: "rat \<Rightarrow> int" where
  "round_half_even x = (let n = \<lfloor>x\<rfloor>; d = x - of_int n in
     if d < 1/2 then n else if 1/2 < d then n + 1 else if even n then n else n + 1)"

definition ilog2 :: "rat \<Rightarrow> int" where
  \<comment> \<open>the binary exponent \<open>\<lfloor>log\<^sub>2 x\<rfloor>\<close> of a positive rational\<close>
  "ilog2 x = (if 1 \<le> x then bitlen \<lfloor>x\<rfloor> - 1 else - bitlen (\<lceil>1 / x\<rceil> - 1))"

definition fl :: "rat \<Rightarrow> rat" where
  "fl x = (if x = 0 then 0 else
     let e = ilog2 \<bar>x\<bar> - 52 in sgn x * of_int (round_half_even (\<bar>x\<bar> / 2 powi e)) * 2 powi e)"

definition float_of_nat :: "nat \<Rightarrow> rat" where
  \<comment> \<open>the conversion of an integer operand to a double\<close>
  "float_of_nat n = fl (of_nat n)"

definition fmul :: "rat \<Rightarrow> rat \<Rightarrow> rat" where
  "fmul a b = fl (a * b)"

definition fdiv :: "rat \<Rightarrow> rat \<Rightarrow> rat" where
  "fdiv a b = fl (a / b)"

definition py_int :: "rat \<Rightarrow> int" where
  \<comment> \<open>\<^verbatim>\<open>int(x)\<close> on a float truncates toward zero\<close>
  "py_int x = (if 0 \<le> x then \<lfloor>x\<rfloor> else \<lceil>x\<rceil>)"

definition lit_0_1 :: rat where
  \<comment> \<open>the double denoted by the literal \<^verbatim>\<open>0.1\<close>\<close>
  "lit_0_1 = fl (1 / 10)"

definition percentage :: rat where
  \<comment> \<open>\<^verbatim>\<open>percentage = 0.02\<close>\<close>
  "percentage = fl (2 / 100)"

section \<open>Arrays\<close>

text \<open>
  A NumPy array of dtype \<^verbatim>\<open>uint8\<close> is a nested list of bytes: \<open>Array2\<close> has shape
  \<open>(H, W)\<close>, \<open>Array3\<close> has shape \<open>(H, W, C)\<close>. NumPy arrays are rectangular; the
  shape of a nested list is read at its first row and first pixel.
\<close>

type_synonym uint8 = "8 word"

datatype ndarray = Array2 "uint8 list list" | Array3 "uint8 list list list"

fun shape0 :: "ndarray \<Rightarrow> nat" where
  "shape0 (Array2 a) = length a"
| "shape0 (Array3 a) = length a"

fun shape1 :: "ndarray \<Rightarrow> nat" where
  "shape1 (Array2 a) = (if a = [] then 0 else length (hd a))"
| "shape1 (Array3 a) = (if a = [] then 0 else length (hd a))"

definition channels :: "uint8 list list list \<Rightarrow> nat" where
  "channels a = (if a = [] \<or> hd a = [] then 0 else length (hd (hd a)))"

definition rect :: "'a list list \<Rightarrow> bool" where
  \<comment> \<open>all rows have the width of the first\<close>
  "rect a = (\<forall>row \<in> set a. length row = length (hd a))"

subsection \<open>\<^verbatim>\<open>cv2.cvtColor(img, cv2.COLOR_BGR2GRAY)\<close>\<close>

text \<open>
  OpenCV's 8-bit conversion is fixed-point: the weights of blue, green and red are
  3735, 19235 and 9798 over \<open>2\<^sup>1\<^sup>5\<close>, rounded. The call fails on an empty
  array and on an array whose channel count is neither 3 nor 4 (a fourth channel is
  ignored). Of the message of \<^verbatim>\<open>cv2.error\<close> only the core is kept: the real text also
  names the OpenCV version and the source location.
\<close>

fun gray_px :: "uint8 list \<Rightarrow> uint8" where
  "gray_px (b # g # r # _) =
     of_nat ((3735 * unat b + 19235 * unat g + 9798 * unat r + 16384) div 32768)"
| "gray_px _ = 0"

fun cvtColor_BGR2GRAY :: "ndarray \<Rightarrow> exn + uint8 list list" where
  "cvtColor_BGR2GRAY (Array2 a) =
     (if a = [] \<or> hd a = [] then Inl (CvError ''(-215:Assertion failed) !_src.empty() in function cvtColor'')
      else Inl (CvError ''Invalid number of channels in input image''))"
| "cvtColor_BGR2GRAY (Array3 a) =
     (if a = [] \<or> hd a = [] \<or> channels a = 0
      then Inl (CvError ''(-215:Assertion failed) !_src.empty() in function cvtColor'')
      else if channels a = 3 \<or> channels a = 4 then Inr (map (map gray_px) a)
      else Inl (CvError ''Invalid number of channels in input image''))"

subsection \<open>The NumPy operations of the cropping analysis\<close>

definition np_mean :: "uint8 list \<Rightarrow> rat option" where
  \<comment> \<open>\<^verbatim>\<open>np.mean\<close> of a flat \<^verbatim>\<open>uint8\<close> array: the sum accumulated in \<^verbatim>\<open>float64\<close>, divided by
     the count; NaN (with a warning, no exception) for an empty array\<close>
  "np_mean xs = (if xs = [] then None
     else Some (fdiv (float_of_nat (sum_list (map unat xs))) (float_of_nat (length xs))))"

definition threshold :: "uint8 list list \<Rightarrow> rat option" where
  \<comment> \<open>\<^verbatim>\<open>0.1 * np.mean(img_gray[img_gray != 0])\<close>\<close>
  "threshold img_gray =
     map_option (fmul lit_0_1) (np_mean (filter (\<lambda>g. g \<noteq> 0) (concat img_gray)))"

definition gt_float :: "nat \<Rightarrow> rat option \<Rightarrow> bool" where
  \<comment> \<open>\<^verbatim>\<open>n > t\<close> for an integer and a double; every comparison with NaN is false\<close>
  "gt_float n t = (case t of None \<Rightarrow> False | Some x \<Rightarrow> x < of_nat n)"

definition im_binary :: "uint8 list list \<Rightarrow> bool list list" where
  "im_binary img_gray = map (map (\<lambda>g. gt_float (unat g) (threshold img_gray))) img_gray"

definition count_true :: "bool list \<Rightarrow> nat" where
  "count_true bs = length (filter (\<lambda>b. b) bs)"

definition row_sums :: "bool list list \<Rightarrow> nat list" where
  \<comment> \<open>\<^verbatim>\<open>np.sum(im_binary, axis=1)\<close>\<close>
  "row_sums m = map count_true m"

definition col_sums :: "bool list list \<Rightarrow> nat list" where
  \<comment> \<open>\<^verbatim>\<open>np.sum(im_binary, axis=0)\<close>\<close>
  "col_sums m = map (\<lambda>j. count_true (map (\<lambda>row. row ! j) m)) [0..<length (hd m)]"

definition np_where_gt :: "nat list \<Rightarrow> rat \<Rightarrow> nat list" where
  \<comment> \<open>\<^verbatim>\<open>np.where(sums > t)[0]\<close>: the indices, ascending\<close>
  "np_where_gt totals t = filter (\<lambda>i. gt_float (totals ! i) (Some t)) [0..<length totals]"

definition rows_of :: "ndarray \<Rightarrow> uint8 list list \<Rightarrow> nat list" where
  "rows_of img img_gray =
     np_where_gt (row_sums (im_binary img_gray)) (fmul (float_of_nat (shape1 img)) percentage)"

definition cols_of :: "ndarray \<Rightarrow> uint8 list list \<Rightarrow> nat list" where
  "cols_of img img_gray =
     np_where_gt (col_sums (im_binary img_gray)) (fmul (float_of_nat (shape0 img)) percentage)"

definition slice :: "nat \<Rightarrow> nat \<Rightarrow> 'a list \<Rightarrow> 'a list" where
  \<comment> \<open>\<^verbatim>\<open>xs[lo:hi]\<close> for non-negative bounds\<close>
  "slice lo hi xs = take (hi - lo) (drop lo xs)"

fun crop :: "ndarray \<Rightarrow> nat \<Rightarrow> nat \<Rightarrow> nat \<Rightarrow> nat \<Rightarrow> ndarray" where
  \<comment> \<open>\<^verbatim>\<open>img[r0:r1, c0:c1]\<close>\<close>
  "crop (Array2 a) r0 r1 c0 c1 = Array2 (map (slice c0 c1) (slice r0 r1 a))"
| "crop (Array3 a) r0 r1 c0 c1 = Array3 (map (slice c0 c1) (slice r0 r1 a))"

section \<open>The crop-and-resize transform\<close>

text \<open>Lines 22 to 33 of \<^verbatim>\<open>trim_and_resize\<close>: the image that is handed to the resize step.\<close>

definition trim :: "ndarray \<Rightarrow> exn + ndarray" where
  "trim img =
     (case cvtColor_BGR2GRAY img of
        Inl e \<Rightarrow> Inl e
      | Inr img_gray \<Rightarrow>
          (let rows = rows_of img img_gray; cols = cols_of img img_gray in
           if rows \<noteq> [] \<and> cols \<noteq> []
           then Inr (crop img (Min (set rows)) (Max (set rows) + 1) (Min (set cols)) (Max (set cols) + 1))
           else Inr img))"

subsection \<open>Pillow images\<close>

text \<open>
  A Pillow image is described by the operations that built it. Its size and mode are
  functions of that description; its pixel values (which for a resized image come out of
  Lanczos resampling) are not computed.
\<close>

datatype pil_image =
    Fromarray ndarray
  | Resized pil_image "nat \<times> nat"
  | New string "nat \<times> nat"
  | Pasted pil_image pil_image "int \<times> int"

fun im_size :: "pil_image \<Rightarrow> nat \<times> nat" where
  \<comment> \<open>\<^verbatim>\<open>im.size\<close>, (width, height)\<close>
  "im_size (Fromarray a) = (shape1 a, shape0 a)"
| "im_size (Resized im s) = s"
| "im_size (New m s) = s"
| "im_size (Pasted canvas im box) = im_size canvas"

fun im_mode :: "pil_image \<Rightarrow> string" where
  "im_mode (Fromarray (Array2 a)) = ''L''"
| "im_mode (Fromarray (Array3 a)) =
     (if channels a = 2 then ''LA'' else if channels a = 3 then ''RGB'' else ''RGBA'')"
| "im_mode (Resized im s) = im_mode im"
| "im_mode (New m s) = m"
| "im_mode (Pasted canvas im box) = im_mode canvas"

definition bands :: "string \<Rightarrow> nat" where
  \<comment> \<open>the number of channels of a mode\<close>
  "bands m = (if m = ''RGB'' then 3 else if m = ''RGBA'' then 4 else if m = ''LA'' then 2 else 1)"

fun fromarray :: "ndarray \<Rightarrow> exn + pil_image" where
  "fromarray (Array2 a) = Inr (Fromarray (Array2 a))"
| "fromarray (Array3 a) =
     (if channels a = 2 \<or> channels a = 3 \<or> channels a = 4 then Inr (Fromarray (Array3 a))
      else Inl (TypeError ''Cannot handle this data type''))"

definition resize :: "pil_image \<Rightarrow> int \<times> int \<Rightarrow> exn + pil_image" where
  \<comment> \<open>\<^verbatim>\<open>im.resize(size, Image.LANCZOS)\<close>: a copy when the size does not change\<close>
  "resize im s =
     (if s = (int (fst (im_size im)), int (snd (im_size im))) then Inr im
      else if fst s < 1 \<or> snd s < 1 then Inl (ValueError ''height and width must be > 0'')
      else Inr (Resized im (nat (fst s), nat (snd s))))"

definition ratio_of :: "nat \<times> nat \<Rightarrow> nat \<Rightarrow> exn + rat" where
  \<comment> \<open>\<^verbatim>\<open>float(output_size) / max(old_size)\<close>\<close>
  "ratio_of old_size output_size =
     (if max (fst old_size) (snd old_size) = 0 then Inl (ZeroDivisionError ''float division by zero'')
      else Inr (fdiv (float_of_nat output_size) (float_of_nat (max (fst old_size) (snd old_size)))))"

definition new_size_of :: "nat \<times> nat \<Rightarrow> rat \<Rightarrow> int \<times> int" where
  \<comment> \<open>\<^verbatim>\<open>tuple([int(x * ratio) for x in old_size])\<close>\<close>
  "new_size_of old_size ratio =
     (py_int (fmul (float_of_nat (fst old_size)) ratio), py_int (fmul (float_of_nat (snd old_size)) ratio))"

definition paste_box :: "nat \<Rightarrow> int \<times> int \<Rightarrow> int \<times> int" where
  \<comment> \<open>\<^verbatim>\<open>((output_size - new_size[0]) // 2, (output_size - new_size[1]) // 2)\<close>\<close>
  "paste_box output_size new_size =
     ((int output_size - fst new_size) div 2, (int output_size - snd new_size) div 2)"

text \<open>Lines 34 to 41: resize the trimmed array and paste it on the black square canvas.\<close>

definition resize_pad :: "ndarray \<Rightarrow> nat \<Rightarrow> exn + pil_image" where
  "resize_pad img output_size =
     (case fromarray img of
        Inl e \<Rightarrow> Inl e
      | Inr im_pil \<Rightarrow>
          (case ratio_of (im_size im_pil) output_size of
             Inl e \<Rightarrow> Inl e
           | Inr ratio \<Rightarrow>
               (let new_size = new_size_of (im_size im_pil) ratio in
                case resize im_pil new_size of
                  Inl e \<Rightarrow> Inl e
                | Inr im_resized \<Rightarrow>
                    Inr (Pasted (New ''RGB'' (output_size, output_size)) im_resized
                           (paste_box output_size new_size)))))"

definition trim_and_resize :: "ndarray \<Rightarrow> nat \<Rightarrow> exn + pil_image" where
  "trim_and_resize im output_size =
     (case trim im of Inl e \<Rightarrow> Inl e | Inr img \<Rightarrow> resize_pad img output_size)"

text \<open>
  The value of the variable \<^verbatim>\<open>new_size\<close> for a trimmed array \<open>img\<close>: \<^verbatim>\<open>old_size\<close> is the
  size of the Pillow image, width first.
\<close>

definition new_size :: "ndarray \<Rightarrow> nat \<Rightarrow> int \<times> int" where
  "new_size img output_size =
     new_size_of (shape1 img, shape0 img)
       (fdiv (float_of_nat output_size) (float_of_nat (max (shape1 img) (shape0 img))))"

text \<open>
  A NumPy array of shape \<open>(H, W, C)\<close> with at least one row and one column, as a nested
  list: all rows have one length and all pixels have one length.
\<close>

definition wf_array :: "uint8 list list list \<Rightarrow> bool" where
  "wf_array a = (a \<noteq> [] \<and> hd a \<noteq> [] \<and> rect a
     \<and> (\<forall>row \<in> set a. \<forall>px \<in> set row. length px = channels a))"

text \<open>
  The content size as the specification words it, for a post-crop size \<open>W \<times> H\<close> with
  \<open>W \<ge> H\<close>: the width is \<^verbatim>\<open>output_size\<close> and the height is
  \<^verbatim>\<open>round(output_size * H / W)\<close>.
\<close>

definition spec_content_size :: "nat \<Rightarrow> nat \<times> nat \<Rightarrow> int \<times> int" where
  "spec_content_size output_size wh =
     (int output_size, round_half_even (of_nat output_size * of_nat (snd wh) / of_nat (fst wh)))"

section \<open>The batch driver\<close>

subsection \<open>Paths\<close>

type_synonym path = string

definition os_path_join :: "path \<Rightarrow> path \<Rightarrow> path" where
  \<comment> \<open>\<^verbatim>\<open>posixpath.join\<close>; with three arguments it is applied from the left\<close>
  "os_path_join a b =
     (if b \<noteq> [] \<and> hd b = CHR ''/'' then b
      else if a = [] \<or> last a = CHR ''/'' then a @ b
      else a @ ''/'' @ b)"

definition os_path_dirname :: "path \<Rightarrow> path" where
  \<comment> \<open>\<^verbatim>\<open>posixpath.dirname\<close>: everything up to the last slash, trailing slashes stripped
     unless nothing else is left\<close>
  "os_path_dirname p =
     (let head = rev (dropWhile (\<lambda>c. c \<noteq> CHR ''/'') (rev p)) in
      if head \<noteq> [] \<and> \<not> list_all (\<lambda>c. c = CHR ''/'') head
      then rev (dropWhile (\<lambda>c. c = CHR ''/'') (rev head))
      else head)"

definition lower_char :: "char \<Rightarrow> char" where
  "lower_char c = (let n = (of_char c :: nat) in if 65 \<le> n \<and> n \<le> 90 then char_of (n + 32) else c)"

definition lower :: "string \<Rightarrow> string" where
  \<comment> \<open>\<^verbatim>\<open>str.lower\<close> on the ASCII letters, the only ones that can produce the suffixes below\<close>
  "lower s = map lower_char s"

definition endswith :: "string \<Rightarrow> string list \<Rightarrow> bool" where
  \<comment> \<open>\<^verbatim>\<open>s.endswith(tuple)\<close>\<close>
  "endswith s sufs =
     list_ex (\<lambda>suf. length suf \<le> length s \<and> drop (length s - length suf) s = suf) sufs"

definition is_image_name :: "string \<Rightarrow> bool" where
  "is_image_name f = endswith (lower f) [''.png'', ''.jpg'', ''.jpeg'']"

subsection \<open>The file system and the console\<close>

text \<open>
  The state of a run: the directories that exist, the regular files with their bytes, and
  the lines printed so far. Paths are compared as strings, as the script builds them.
\<close>

type_synonym bytes = "8 word list"

record world =
  dirs :: "path set"
  files :: "path \<rightharpoonup> bytes"
  stdout :: "string list"

definition path_exists :: "world \<Rightarrow> path \<Rightarrow> bool" where
  \<comment> \<open>\<^verbatim>\<open>os.path.exists\<close>\<close>
  "path_exists w p = (p \<in> dirs w \<or> files w p \<noteq> None)"

definition ancestors :: "path \<Rightarrow> path list" where
  \<comment> \<open>the proper prefixes of a path that end before a slash\<close>
  "ancestors p = map (\<lambda>i. take i p) (filter (\<lambda>i. p ! i = CHR ''/'') [1..<length p])"

definition print_line :: "string \<Rightarrow> world \<Rightarrow> world" where
  "print_line s w = w\<lparr>stdout := stdout w @ [s]\<rparr>"

text \<open>
  What the run reads from outside and cannot decide by itself: what the operating system
  refuses when a directory is to be created (permissions, a read-only or full device), the
  listing of an input directory, the image decoder behind \<^verbatim>\<open>cv2.imread\<close> (\<open>None\<close> for bytes that are not a
  readable image), the contrast enhancement \<^verbatim>\<open>apply_clahe\<close> (a composition of OpenCV calls
  on pixel values, which returns an array or raises), and the encoder behind
  \<^verbatim>\<open>cv2.imwrite\<close>, which raises, or returns false and writes nothing (\<open>None\<close>), or writes
  bytes.
\<close>

record env =
  mkdir_error :: "path \<Rightarrow> exn option"
  listdir :: "path \<Rightarrow> exn + string list"
  decode :: "bytes \<Rightarrow> ndarray option"
  apply_clahe :: "pil_image \<Rightarrow> exn + ndarray"
  imwrite :: "path \<Rightarrow> ndarray \<Rightarrow> exn + bytes option"

definition imread :: "env \<Rightarrow> world \<Rightarrow> path \<Rightarrow> ndarray option" where
  \<comment> \<open>\<^verbatim>\<open>cv2.imread\<close> returns \<^verbatim>\<open>None\<close> for a missing or unreadable file; it does not raise\<close>
  "imread E w p = (case files w p of None \<Rightarrow> None | Some b \<Rightarrow> decode E b)"

text \<open>
  \<^verbatim>\<open>os.mkdir(p)\<close> creates one directory. It fails when the path is empty, when it exists,
  when its parent directory is missing or is a regular file, and when the operating system
  refuses.
\<close>

definition quoted :: "path \<Rightarrow> string" where
  "quoted p = CHR 0x27 # p @ [CHR 0x27]"

definition mkdir :: "env \<Rightarrow> path \<Rightarrow> world \<Rightarrow> exn option \<times> world" where
  "mkdir E p w =
     (if p = [] then (Some (FileNotFoundError (''[Errno 2] No such file or directory: '' @ quoted p)), w)
      else if path_exists w p then (Some (FileExistsError (''[Errno 17] File exists: '' @ quoted p)), w)
      else if ancestors p \<noteq> [] \<and> files w (last (ancestors p)) \<noteq> None
        then (Some (NotADirectoryError (''[Errno 20] Not a directory: '' @ quoted p)), w)
      else if ancestors p \<noteq> [] \<and> \<not> path_exists w (last (ancestors p))
        then (Some (FileNotFoundError (''[Errno 2] No such file or directory: '' @ quoted p)), w)
      else (case mkdir_error E p of
              Some e \<Rightarrow> (Some e, w)
            | None \<Rightarrow> (None, w\<lparr>dirs := insert p (dirs w)\<rparr>)))"

text \<open>
  \<^verbatim>\<open>os.makedirs(p)\<close> with \<^verbatim>\<open>exist_ok\<close> false: when the parent is missing it is made first, by
  the same procedure, and then the directory itself with \<^verbatim>\<open>os.mkdir\<close>. \<open>mk_heads\<close> takes the
  ancestors from the nearest to the farthest and stops at the first that exists. Directories
  made before a failure stay.
\<close>

fun mk_heads :: "env \<Rightarrow> path list \<Rightarrow> world \<Rightarrow> exn option \<times> world" where
  "mk_heads E [] w = (None, w)"
| "mk_heads E (h # hs) w =
     (if path_exists w h then (None, w)
      else (case mk_heads E hs w of
              (Some e, w') \<Rightarrow> (Some e, w')
            | (None, w') \<Rightarrow> mkdir E h w'))"

definition makedirs :: "env \<Rightarrow> path \<Rightarrow> world \<Rightarrow> exn option \<times> world" where
  "makedirs E p w =
     (case mk_heads E (rev (ancestors p)) w of
        (Some e, w') \<Rightarrow> (Some e, w')
      | (None, w') \<Rightarrow> mkdir E p w')"

subsection \<open>\<^verbatim>\<open>process_and_save_images\<close>\<close>

text \<open>The body of the \<^verbatim>\<open>try\<close> block, lines 64 to 74. It returns the exception it raised, if any.\<close>

definition try_body :: "env \<Rightarrow> path \<Rightarrow> path \<Rightarrow> nat \<Rightarrow> world \<Rightarrow> exn option \<times> world" where
  "try_body E image_path output_image_path output_size w =
     (let output_subfolder_path = os_path_dirname output_image_path;
          (r, w1) = (if \<not> path_exists w output_subfolder_path
                     then makedirs E output_subfolder_path w else (None, w))
      in case r of
           Some e \<Rightarrow> (Some e, w1)
         | None \<Rightarrow>
             (case imread E w1 image_path of
                None \<Rightarrow> (None, w1)
              | Some image_original \<Rightarrow>
                  (case trim_and_resize image_original output_size of
                     Inl e \<Rightarrow> (Some e, w1)
                   | Inr image_trimmed_resized \<Rightarrow>
                       (case apply_clahe E image_trimmed_resized of
                          Inl e \<Rightarrow> (Some e, w1)
                        | Inr image_clahe \<Rightarrow>
                            (case imwrite E output_image_path image_clahe of
                               Inl e \<Rightarrow> (Some e, w1)
                             | Inr written \<Rightarrow>
                                 (None,
                                  print_line (''Processed and saved: '' @ output_image_path)
                                    (case written of
                                       None \<Rightarrow> w1
                                     | Some b \<Rightarrow> w1\<lparr>files := (files w1)(output_image_path \<mapsto> b)\<rparr>)))))))"

text \<open>One iteration of the inner loop, lines 60 to 78.\<close>

definition process_file ::
  "env \<Rightarrow> path \<Rightarrow> path \<Rightarrow> string \<Rightarrow> nat \<Rightarrow> string \<Rightarrow> world \<Rightarrow> exn option \<times> world" where
  "process_file E subfolder_path output_path_folder subfolder output_size img_file w =
     (let image_path = os_path_join subfolder_path img_file;
          output_image_path = os_path_join (os_path_join output_path_folder subfolder) img_file
      in if \<not> path_exists w output_image_path
         then (case try_body E image_path output_image_path output_size w of
                 (Some e, w') \<Rightarrow>
                   (None, print_line (''Error processing '' @ image_path @ '': '' @ str_exn e) w')
               | (None, w') \<Rightarrow> (None, w'))
         else (None, print_line (''Skipping '' @ output_image_path @ '', already exists.'') w))"

fun process_files ::
  "env \<Rightarrow> path \<Rightarrow> path \<Rightarrow> string \<Rightarrow> nat \<Rightarrow> string list \<Rightarrow> world \<Rightarrow> exn option \<times> world" where
  "process_files E subfolder_path output_path_folder subfolder output_size [] w = (None, w)"
| "process_files E subfolder_path output_path_folder subfolder output_size (img_file # rest) w =
     (case process_file E subfolder_path output_path_folder subfolder output_size img_file w of
        (Some e, w') \<Rightarrow> (Some e, w')
      | (None, w') \<Rightarrow> process_files E subfolder_path output_path_folder subfolder output_size rest w')"

text \<open>One iteration of the outer loop, lines 53 to 78.\<close>

definition process_subfolder ::
  "env \<Rightarrow> path \<Rightarrow> path \<Rightarrow> nat \<Rightarrow> string \<Rightarrow> world \<Rightarrow> exn option \<times> world" where
  "process_subfolder E input_path_folder output_path_folder output_size subfolder w =
     (let subfolder_path = os_path_join input_path_folder subfolder
      in if \<not> path_exists w subfolder_path
         then (None, print_line (''Subfolder '' @ subfolder @ '' does not exist. Skipping.'') w)
         else (case listdir E subfolder_path of
                 Inl e \<Rightarrow> (Some e, w)
               | Inr names \<Rightarrow>
                   process_files E subfolder_path output_path_folder subfolder output_size
                     (filter is_image_name names) w))"

fun process_subfolders ::
  "env \<Rightarrow> path \<Rightarrow> path \<Rightarrow> nat \<Rightarrow> string list \<Rightarrow> world \<Rightarrow> exn option \<times> world" where
  "process_subfolders E input_path_folder output_path_folder output_size [] w = (None, w)"
| "process_subfolders E input_path_folder output_path_folder output_size (subfolder # rest) w =
     (case process_subfolder E input_path_folder output_path_folder output_size subfolder w of
        (Some e, w') \<Rightarrow> (Some e, w')
      | (None, w') \<Rightarrow> process_subfolders E input_path_folder output_path_folder output_size rest w')"

definition subfolders :: "string list" where
  "subfolders = [''0'', ''1'', ''2'', ''3'', ''4'', ''5'']"

definition process_and_save_images ::
  "env \<Rightarrow> path \<Rightarrow> path \<Rightarrow> nat \<Rightarrow> world \<Rightarrow> exn option \<times> world" where
  "process_and_save_images E input_path_folder output_path_folder output_size w =
     (case (if \<not> path_exists w output_path_folder then makedirs E output_path_folder w else (None, w)) of
        (Some e, w0) \<Rightarrow> (Some e, w0)
      | (None, w0) \<Rightarrow>
          process_subfolders E input_path_folder output_path_folder output_size subfolders w0)"

text \<open>
  Both calls of \<^verbatim>\<open>os.makedirs\<close> stand behind \<^verbatim>\<open>if not os.path.exists(p)\<close>; \<open>ensure_dir\<close> is
  such a guarded call.
\<close>

definition ensure_dir :: "env \<Rightarrow> path \<Rightarrow> world \<Rightarrow> exn option \<times> world" where
  "ensure_dir E p w = (if \<not> path_exists w p then makedirs E p w else (None, w))"

text \<open>
  All outputs of an input subdirectory exist: every listed image file has its mirrored output
  path on disk.
\<close>

definition outputs_exist :: "env \<Rightarrow> path \<Rightarrow> path \<Rightarrow> string \<Rightarrow> world \<Rightarrow> bool" where
  "outputs_exist E inp outp s w =
     (\<forall>names. path_exists w (os_path_join inp s) \<and> listdir E (os_path_join inp s) = Inr names
        \<longrightarrow> (\<forall>f \<in> set names. is_image_name f \<longrightarrow> path_exists w (os_path_join (os_path_join outp s) f)))"


text \<open>A step that only makes directories.\<close>

definition only_dirs :: "world \<Rightarrow> world \<Rightarrow> bool" where
  "only_dirs w w' = (files w' = files w \<and> stdout w' = stdout w \<and> dirs w \<subseteq> dirs w')"

section \<open>Example data\<close>

text \<open>Small images, a file system and an environment on which the theorems below are instantiated.\<close>

definition white :: "uint8 list" where "white = [255, 255, 255]"

definition strip_1x3 :: ndarray where
  "strip_1x3 = Array3 [[white, white, white]]"

definition black :: "uint8 list" where "black = [0, 0, 0]"

definition black_2x3 :: ndarray where
  "black_2x3 = Array3 [[black, black, black], [black, black, black]]"

definition black_1x2 :: ndarray where
  "black_1x2 = Array3 [[black, black]]"

definition black_19x19 :: ndarray where
  "black_19x19 = Array3 (replicate 19 (replicate 19 black))"

text \<open>A grayscale image, as \<^verbatim>\<open>cv2.imread\<close> returns it with \<^verbatim>\<open>IMREAD_GRAYSCALE\<close>.\<close>

definition gray_1x1 :: ndarray where
  "gray_1x1 = Array2 [[7]]"

definition env0 :: env where
  "env0 = \<lparr>mkdir_error = (\<lambda>p. None),
           listdir = (\<lambda>p. if p = ''in/0'' then Inr [''a.PNG'', ''notes.txt'', ''b.jpeg''] else Inr []),
           decode = (\<lambda>b. if b = [1] then Some strip_1x3 else None),
           apply_clahe = (\<lambda>im. Inr (Array3 [])),
           imwrite = (\<lambda>p a. Inr (Some [2]))\<rparr>"

definition world0 :: world where
  "world0 = \<lparr>dirs = {''in'', ''in/0''}, files = [''in/0/a.PNG'' \<mapsto> [1], ''in/0/b.jpeg'' \<mapsto> [0]], stdout = []\<rparr>"

definition world2 :: world where
  "world2 = \<lparr>dirs = {''in'', ''in/0'', ''out'', ''out/0''},
             files = [''in/0/a.PNG'' \<mapsto> [1], ''in/0/b.jpeg'' \<mapsto> [0],
                      ''out/0/a.PNG'' \<mapsto> [2], ''out/0/b.jpeg'' \<mapsto> [2]],
             stdout = []\<rparr>"




text \<open>A file system in which the output root \<^verbatim>\<open>out\<close> is a regular file.\<close>

definition world4 :: world where
  "world4 = \<lparr>dirs = {''in'', ''in/0''},
             files = [''in/0/a.PNG'' \<mapsto> [1], ''in/0/b.jpeg'' \<mapsto> [0], ''out'' \<mapsto> [9]],
             stdout = []\<rparr>"
section \<open>Properties of the rounding\<close>

lemma round_half_even_err: "\<bar>of_int (round_half_even x) - x\<bar> \<le> 1/2"
proof -
  have "of_int \<lfloor>x\<rfloor> \<le> x" "x < of_int \<lfloor>x\<rfloor> + 1" by linarith+
  then show ?thesis
    unfolding round_half_even_def Let_def by (simp add: abs_if) linarith
qed

lemma round_half_even_int: "round_half_even (of_int n) = n"
  by (simp add: round_half_even_def)

lemma round_half_even_ge: "of_int n \<le> x \<Longrightarrow> n \<le> round_half_even x"
proof -
  assume "of_int n \<le> x"
  then have "n \<le> \<lfloor>x\<rfloor>" by (simp add: le_floor_iff)
  then show ?thesis unfolding round_half_even_def Let_def by auto
qed

lemma ilog2_bounds:
  assumes "0 < x"
  shows "2 powi (ilog2 x) \<le> x \<and> x < 2 powi (ilog2 x + 1)"
proof (cases "1 \<le> x")
  case True
  define n where "n = \<lfloor>x\<rfloor>"
  have n: "0 < n" "of_int n \<le> x" "x < of_int n + 1" using True unfolding n_def by (simp, linarith+)
  have b: "1 \<le> bitlen n" using n(1) by (simp add: bitlen_alt_def)
  from bitlen_bounds[OF n(1)] have bb: "2 ^ nat (bitlen n - 1) \<le> n" "n + 1 \<le> 2 ^ nat (bitlen n)" by auto
  have e: "ilog2 x = bitlen n - 1" using True by (simp add: ilog2_def n_def)
  have "(2::rat) powi (bitlen n - 1) = of_int (2 ^ nat (bitlen n - 1))"
    using b by (simp add: power_int_def)
  also have "\<dots> \<le> of_int n" using bb(1) by (simp only: of_int_le_iff)
  finally have lo: "(2::rat) powi (bitlen n - 1) \<le> x" using n(2) by linarith
  have "x < of_int (n + 1)" using n(3) by simp
  also have "\<dots> \<le> of_int (2 ^ nat (bitlen n))" using bb(2) by (simp only: of_int_le_iff)
  also have "\<dots> = (2::rat) powi (bitlen n)" using b by (simp add: power_int_def)
  finally show ?thesis using lo e by simp
next
  case False
  define y where "y = 1 / x"
  have y: "1 < y" using False assms by (simp add: y_def)
  define k where "k = \<lceil>y\<rceil> - 1"
  have k: "0 < k" "of_int k < y" "y \<le> of_int k + 1" using y unfolding k_def by (simp, linarith+)
  have b: "1 \<le> bitlen k" using k(1) by (simp add: bitlen_alt_def)
  from bitlen_bounds[OF k(1)] have bb: "2 ^ nat (bitlen k - 1) \<le> k" "k + 1 \<le> 2 ^ nat (bitlen k)" by auto
  have e: "ilog2 x = - bitlen k" using False by (simp add: ilog2_def k_def y_def)
  have "(2::rat) ^ nat (bitlen k - 1) = of_int (2 ^ nat (bitlen k - 1))" by simp
  also have "\<dots> \<le> of_int k" using bb(1) by (simp only: of_int_le_iff)
  finally have ylo: "(2::rat) ^ nat (bitlen k - 1) < y" using k(2) by linarith
  have "y \<le> of_int (k + 1)" using k(3) by simp
  also have "\<dots> \<le> of_int (2 ^ nat (bitlen k))" using bb(2) by (simp only: of_int_le_iff)
  finally have yhi: "y \<le> (2::rat) ^ nat (bitlen k)" by simp
  have x: "x = 1 / y" using assms by (simp add: y_def)
  have p1: "(2::rat) powi (- bitlen k) = 1 / 2 ^ nat (bitlen k)"
    using b by (simp add: power_int_def field_simps)
  have p2: "(2::rat) powi (- bitlen k + 1) = 1 / 2 ^ nat (bitlen k - 1)"
    using b by (simp add: power_int_def field_simps)
  have "1 / 2 ^ nat (bitlen k) \<le> 1 / y" using yhi y by (simp add: frac_le)
  moreover have "1 / y < 1 / 2 ^ nat (bitlen k - 1)" using ylo by (simp add: frac_less2)
  ultimately show ?thesis using e p1 p2 x by simp
qed

lemma fl_pos_eq:
  assumes "0 < x"
  shows "fl x = of_int (round_half_even (x / 2 powi (ilog2 x - 52))) * 2 powi (ilog2 x - 52)"
  using assms by (simp add: fl_def Let_def)

lemma fl_scale:
  assumes "0 < x"
  obtains p r :: rat where "0 < p" "p * 2 ^ 52 \<le> x" "fl x = r * p" "\<bar>r - x / p\<bar> \<le> 1/2"
    "r = of_int (round_half_even (x / p))" "p = 2 powi (ilog2 x - 52)"
proof -
  define e where "e = ilog2 x - 52"
  define p :: rat where "p = 2 powi e"
  define r :: rat where "r = of_int (round_half_even (x / p))"
  have p: "0 < p" by (simp add: p_def)
  have "2 powi (ilog2 x) \<le> x" using ilog2_bounds[OF assms] by simp
  moreover have "(2::rat) powi (ilog2 x) = 2 powi e * 2 ^ 52"
    by (simp add: e_def power_int_diff)
  ultimately have lo: "p * 2 ^ 52 \<le> x" by (simp add: p_def)
  have flx: "fl x = r * p" using assms by (simp add: fl_pos_eq p_def e_def r_def)
  have "\<bar>r - x / p\<bar> \<le> 1/2" unfolding r_def by (rule round_half_even_err)
  then show ?thesis using that[of p r] p lo flx r_def p_def e_def by blast
qed

lemma fl_rel_err:
  assumes "0 < x"
  shows "\<bar>fl x - x\<bar> \<le> x / 2 ^ 53"
proof -
  obtain p r :: rat where p: "0 < p" and lo: "p * 2 ^ 52 \<le> x" and flx: "fl x = r * p"
    and r: "\<bar>r - x / p\<bar> \<le> 1/2"
    using fl_scale[OF assms] by metis
  from r have "\<bar>r - x / p\<bar> * p \<le> 1/2 * p"
    using p by (intro mult_right_mono) simp_all
  moreover have "\<bar>r - x / p\<bar> * p = \<bar>r * p - x\<bar>"
  proof -
    have "(r - x / p) * p = r * p - x" using p by (simp add: left_diff_distrib)
    moreover have "\<bar>(r - x / p) * p\<bar> = \<bar>r - x / p\<bar> * \<bar>p\<bar>" by (rule abs_mult)
    moreover have "\<bar>p\<bar> = p" using p by simp
    ultimately show ?thesis by simp
  qed
  ultimately have "\<bar>fl x - x\<bar> \<le> p / 2" by (simp add: flx)
  also have "p / 2 \<le> x / 2 ^ 53" using lo by simp
  finally show ?thesis .
qed

lemma fl_nonneg: "0 \<le> x \<Longrightarrow> 0 \<le> fl x"
proof (cases "x = 0")
  case True then show ?thesis by (simp add: fl_def)
next
  case False
  assume "0 \<le> x"
  then have x: "0 < x" using False by simp
  have "\<bar>fl x - x\<bar> \<le> x / 2 ^ 53" by (rule fl_rel_err[OF x])
  moreover have "x / 2 ^ 53 \<le> x" using x by (simp add: field_simps)
  ultimately show ?thesis by linarith
qed

lemma fl_int_ge:
  assumes "0 < n" "of_int n \<le> x" "n < 2 ^ 53"
  shows "of_int n \<le> fl x"
proof -
  have xpos: "0 < x"
  proof -
    have "(0::rat) < of_int n" using assms(1) by simp
    then show ?thesis using assms(2) by linarith
  qed
  obtain p r :: rat where p: "0 < p" and lo: "p * 2 ^ 52 \<le> x" and flx: "fl x = r * p"
    and rdef: "r = of_int (round_half_even (x / p))" and pdef: "p = 2 powi (ilog2 x - 52)"
    using fl_scale[OF xpos] by metis
  define e where "e = ilog2 x - 52"
  show ?thesis
  proof (cases "e \<le> 0")
    case True
    then have pe: "p = 1 / 2 ^ nat (- e)" by (simp add: pdef e_def power_int_def field_simps)
    have "of_int (n * 2 ^ nat (- e)) \<le> x / p" using assms(2) by (simp add: pe)
    then have "n * 2 ^ nat (- e) \<le> round_half_even (x / p)" by (rule round_half_even_ge)
    then have "(of_int (n * 2 ^ nat (- e)) :: rat) \<le> r"
      unfolding rdef by (simp only: of_int_le_iff)
    then have "of_int (n * 2 ^ nat (- e)) * p \<le> r * p"
      using p by (simp only: mult_le_cancel_right_pos)
    moreover have "of_int (n * 2 ^ nat (- e)) * p = (of_int n :: rat)" by (simp add: pe)
    ultimately have "(of_int n :: rat) \<le> r * p" by (simp only:)
    then show ?thesis by (simp only: flx)
  next
    case False
    have "of_int (2 ^ 52) \<le> x / p" using lo p by (simp add: field_simps)
    then have "2 ^ 52 \<le> round_half_even (x / p)" by (rule round_half_even_ge)
    then have "(of_int (2 ^ 52) :: rat) \<le> r"
      unfolding rdef by (simp only: of_int_le_iff)
    then have "of_int (2 ^ 52) * p \<le> r * p" using p by (simp only: mult_le_cancel_right_pos)
    then have a: "(2::rat) ^ 52 * p \<le> fl x" by (simp add: flx)
    have "e \<ge> 1" using False by simp
    then have "2 \<le> p" unfolding pdef e_def[symmetric] power_int_def
      using self_le_power[of "2::rat" "nat e"] by simp
    then have b: "(2::rat) ^ 53 \<le> 2 ^ 52 * p" by simp
    have "(of_int n :: rat) < of_int (2 ^ 53)" using assms(3) by (simp only: of_int_less_iff)
    then have "(of_int n :: rat) < 2 ^ 53" by simp
    then show ?thesis using a b by linarith
  qed
qed

lemma fl_int:
  assumes "0 \<le> n" "n < 2 ^ 53"
  shows "fl (of_int n) = of_int n"
proof (cases "n = 0")
  case True then show ?thesis by (simp add: fl_def)
next
  case False
  then have npos: "0 < n" using assms by simp
  define x :: rat where "x = of_int n"
  have xpos: "0 < x" using npos by (simp add: x_def)
  define e where "e = ilog2 x - 52"
  define p :: rat where "p = 2 powi e"
  have "2 powi (ilog2 x) \<le> x" using ilog2_bounds[OF xpos] by simp
  also have "x < of_int (2 ^ 53)" using assms(2) unfolding x_def by (simp only: of_int_less_iff)
  finally have "(2::rat) powi (ilog2 x) < 2 powi 53" by simp
  then have "ilog2 x < 53" by (rule power_int_le_imp_less_exp[rotated]) simp_all
  then have e: "e \<le> 0" by (simp add: e_def)
  then have pe: "p = 1 / 2 ^ nat (- e)" by (simp add: p_def power_int_def field_simps)
  have "x / p = of_int (n * 2 ^ nat (- e))" by (simp add: pe x_def)
  then have "round_half_even (x / p) = n * 2 ^ nat (- e)" by (simp only: round_half_even_int)
  then have "fl x = of_int (n * 2 ^ nat (- e)) * p" using xpos by (simp add: fl_pos_eq p_def e_def)
  then show ?thesis by (simp add: pe x_def)
qed

lemma float_of_nat_exact: "n < 2 ^ 53 \<Longrightarrow> float_of_nat n = of_nat n"
proof -
  assume "n < 2 ^ 53"
  then have "int n < 2 ^ 53" by (metis of_nat_less_iff of_nat_numeral of_nat_power)
  then have "fl (of_int (int n)) = of_int (int n)" by (intro fl_int) simp_all
  then show ?thesis by (simp add: float_of_nat_def)
qed

lemma fl_lower: "0 < x \<Longrightarrow> x * (1 - 1 / 2 ^ 53) \<le> fl x"
proof -
  assume "0 < x"
  from fl_rel_err[OF this] have "x - fl x \<le> x / 2 ^ 53" by linarith
  then show ?thesis by (simp add: right_diff_distrib)
qed

lemma fl_upper: "0 < x \<Longrightarrow> fl x \<le> x * (1 + 1 / 2 ^ 53)"
proof -
  assume "0 < x"
  from fl_rel_err[OF this] have "fl x - x \<le> x / 2 ^ 53" by linarith
  then show ?thesis by (simp add: distrib_left)
qed

subsection \<open>The scaled dimensions\<close>

text \<open>
  \<^verbatim>\<open>int(x * ratio)\<close> with \<^verbatim>\<open>ratio = float(S) / m\<close>: two roundings separate the product from
  the exact quotient \<open>S * x / m\<close>, by less than \<open>1 / m\<close> for sizes below \<open>2\<^sup>2\<^sup>5\<close>. The
  truncated value is the integer quotient, or one less when the exact quotient is an
  integer.
\<close>

lemma scaled_dim_err:
  fixes x m S :: nat
  assumes x: "1 \<le> x" "x \<le> m" and S: "1 \<le> S" "S < 2 ^ 25" and m: "m < 2 ^ 25"
  defines "y \<equiv> fmul (float_of_nat x) (fdiv (float_of_nat S) (float_of_nat m))"
  shows "0 \<le> y" and "\<bar>y - of_nat (S * x) / of_nat m\<bar> < 1 / of_nat m"
proof -
  define u :: rat where "u = 1 / 2 ^ 53"
  define \<rho> :: rat where "\<rho> = of_nat S / of_nat m"
  define r where "r = fl \<rho>"
  define t :: rat where "t = of_nat (S * x) / of_nat m"
  have mpos: "0 < m" using x by simp
  have big: "(2::nat) ^ 25 < 2 ^ 53" by simp
  have fx: "float_of_nat x = of_nat x" "float_of_nat S = of_nat S" "float_of_nat m = of_nat m"
    using x S m big by (auto intro!: float_of_nat_exact)
  have y_eq: "y = fl (of_nat x * r)"
    by (simp add: y_def fmul_def fdiv_def fx r_def \<rho>_def)
  have upos: "0 < u" "u \<le> 1" by (simp_all add: u_def)
  have \<rho>pos: "0 < \<rho>" using S mpos by (simp add: \<rho>_def)
  have r_err: "\<bar>r - \<rho>\<bar> \<le> \<rho> * u"
    using fl_rel_err[OF \<rho>pos] by (simp add: r_def u_def)
  have "\<rho> * (1 - u) \<le> r" using fl_lower[OF \<rho>pos] by (simp add: r_def u_def)
  moreover have "0 < \<rho> * (1 - u)" using \<rho>pos by (simp add: u_def)
  ultimately have rpos: "0 < r" by linarith
  have r_up: "r \<le> \<rho> * (1 + u)" using fl_upper[OF \<rho>pos] by (simp add: r_def u_def)
  have xpos: "0 < (of_nat x :: rat)" using x by simp
  have ppos: "0 < of_nat x * r" using xpos rpos by simp
  show "0 \<le> y" unfolding y_eq by (rule fl_nonneg) (use ppos in simp)
  have y_err: "\<bar>y - of_nat x * r\<bar> \<le> of_nat x * r * u"
    using fl_rel_err[OF ppos] by (simp add: y_eq u_def)
  have t_eq: "t = of_nat x * \<rho>" by (simp add: t_def \<rho>_def)
  have tpos: "0 < t" using xpos \<rho>pos by (simp add: t_eq)
  have xr_up: "of_nat x * r \<le> t * (1 + u)"
    using r_up xpos by (simp add: t_eq mult.assoc)
  have e1: "\<bar>y - of_nat x * r\<bar> \<le> t * (1 + u) * u"
  proof -
    have "of_nat x * r * u \<le> t * (1 + u) * u"
      using xr_up upos by (intro mult_right_mono) simp_all
    with y_err show ?thesis by linarith
  qed
  have e2: "\<bar>of_nat x * r - t\<bar> \<le> t * u"
  proof -
    have "\<bar>of_nat x * r - t\<bar> = of_nat x * \<bar>r - \<rho>\<bar>"
      unfolding t_eq by (simp add: right_diff_distrib[symmetric] abs_mult)
    also have "\<dots> \<le> of_nat x * (\<rho> * u)"
      using r_err xpos by (intro mult_left_mono) simp_all
    finally show ?thesis by (simp add: t_eq mult.assoc)
  qed
  have e: "\<bar>y - t\<bar> \<le> t * ((2 + u) * u)"
  proof -
    have "\<bar>y - t\<bar> \<le> \<bar>y - of_nat x * r\<bar> + \<bar>of_nat x * r - t\<bar>" by linarith
    also have "\<dots> \<le> t * (1 + u) * u + t * u" using e1 e2 by linarith
    also have "\<dots> = t * ((2 + u) * u)" by (simp add: algebra_simps)
    finally show ?thesis .
  qed
  have "S * x \<le> S * m" using x by simp
  then have "(of_nat (S * x) :: rat) \<le> of_nat (S * m)" by (simp only: of_nat_le_iff)
  then have "t \<le> of_nat S" using mpos by (simp add: t_def divide_le_eq)
  moreover have "(of_nat S :: rat) < 2 ^ 25" using S(2) by (metis of_nat_less_iff of_nat_numeral of_nat_power)
  ultimately have t_lt: "t < 2 ^ 25" by linarith
  have c: "(2 + u) * u < 1 / 2 ^ 50" by (simp add: u_def)
  have "t * ((2 + u) * u) \<le> 2 ^ 25 * ((2 + u) * u)"
    using t_lt upos by (intro mult_right_mono) simp_all
  also have "\<dots> < 2 ^ 25 * (1 / 2 ^ 50)" using c by simp
  also have "\<dots> = 1 / 2 ^ 25" by simp
  finally have s: "t * ((2 + u) * u) < 1 / 2 ^ 25" .
  have "(of_nat m :: rat) < 2 ^ 25" using m by (metis of_nat_less_iff of_nat_numeral of_nat_power)
  then have "1 / 2 ^ 25 < 1 / (of_nat m :: rat)" using mpos by (simp add: field_simps)
  with s e have "\<bar>y - t\<bar> < 1 / of_nat m" by linarith
  then show "\<bar>y - of_nat (S * x) / of_nat m\<bar> < 1 / of_nat m" by (simp add: t_def)
qed

lemma floor_near_quotient:
  fixes y :: rat and n m :: nat
  assumes "0 < m" and "\<bar>y - of_nat n / of_nat m\<bar> < 1 / of_nat m"
  shows "int (n div m) - 1 \<le> \<lfloor>y\<rfloor>" and "\<lfloor>y\<rfloor> \<le> int (n div m)"
    and "\<not> m dvd n \<Longrightarrow> \<lfloor>y\<rfloor> = int (n div m)"
proof -
  define q where "q = n div m"
  define k where "k = n mod m"
  have n: "n = q * m + k" by (simp add: q_def k_def)
  have k: "k < m" using assms(1) by (simp add: k_def)
  have mr: "0 < (of_nat m :: rat)" using assms(1) by simp
  have t: "(of_nat n :: rat) / of_nat m = of_nat q + of_nat k / of_nat m"
    using mr by (simp add: n field_simps)
  have "of_nat k + 1 \<le> (of_nat m :: rat)" using k by (metis of_nat_Suc of_nat_le_iff Suc_leI add.commute Suc_eq_plus1)
  then have k1: "(of_nat k + 1) / of_nat m \<le> (1::rat)" using mr by (simp add: divide_le_eq)
  have k0: "0 \<le> (of_nat k :: rat) / of_nat m" by simp
  have m1: "1 / (of_nat m :: rat) \<le> 1" using assms(1) mr by (simp add: divide_le_eq)
  have up: "y < of_nat q + 1"
  proof -
    have "y < of_nat n / of_nat m + 1 / of_nat m" using assms(2) by linarith
    also have "\<dots> = of_nat q + (of_nat k + 1) / of_nat m" by (simp add: t add_divide_distrib)
    also have "\<dots> \<le> of_nat q + 1" using k1 by simp
    finally show ?thesis .
  qed
  have lo: "of_nat q - 1 < y"
  proof -
    have "(of_nat q :: rat) - 1 \<le> of_nat n / of_nat m - 1 / of_nat m" using k0 m1 unfolding t by linarith
    also have "\<dots> < y" using assms(2) by linarith
    finally show ?thesis .
  qed
  have "y < of_int (int q + 1)" using up by simp
  then have "\<lfloor>y\<rfloor> < int q + 1" by (simp only: floor_less_iff)
  then show "\<lfloor>y\<rfloor> \<le> int (n div m)" by (simp add: q_def)
  have "of_int (int q - 1) < y" using lo by simp
  then have "int q - 1 \<le> \<lfloor>y\<rfloor>" by (simp only: le_floor_iff less_imp_le)
  then show "int (n div m) - 1 \<le> \<lfloor>y\<rfloor>" by (simp add: q_def)
  show "\<lfloor>y\<rfloor> = int (n div m)" if "\<not> m dvd n"
  proof -
    have "k \<noteq> 0" using that by (auto simp: k_def dvd_eq_mod_eq_0)
    then have "1 \<le> k" by simp
    then have "(1::rat) \<le> of_nat k" by (metis of_nat_1 of_nat_le_iff)
    then have "1 / of_nat m \<le> (of_nat k :: rat) / of_nat m" using mr by (simp add: divide_right_mono)
    then have "(of_nat q :: rat) \<le> of_nat n / of_nat m - 1 / of_nat m" unfolding t by linarith
    also have "\<dots> < y" using assms(2) by linarith
    finally have "of_int (int q) \<le> y" by simp
    then have "int q \<le> \<lfloor>y\<rfloor>" by (simp only: le_floor_iff)
    with \<open>\<lfloor>y\<rfloor> < int q + 1\<close> show ?thesis by (simp add: q_def)
  qed
qed

lemma scaled_dim:
  fixes x m S :: nat
  assumes "1 \<le> x" "x \<le> m" "1 \<le> S" "S < 2 ^ 25" "m < 2 ^ 25"
  defines "v \<equiv> py_int (fmul (float_of_nat x) (fdiv (float_of_nat S) (float_of_nat m)))"
  shows "int ((S * x) div m) - 1 \<le> v" and "v \<le> int ((S * x) div m)"
    and "\<not> m dvd S * x \<Longrightarrow> v = int ((S * x) div m)"
proof -
  note e = scaled_dim_err[OF assms(1-5)]
  have m: "0 < m" using assms(1,2) by simp
  have v: "v = \<lfloor>fmul (float_of_nat x) (fdiv (float_of_nat S) (float_of_nat m))\<rfloor>"
    using e(1) by (simp add: v_def py_int_def)
  note f = floor_near_quotient[OF m e(2)]
  show "int ((S * x) div m) - 1 \<le> v" unfolding v by (rule f(1))
  show "v \<le> int ((S * x) div m)" unfolding v by (rule f(2))
  show "v = int ((S * x) div m)" if "\<not> m dvd S * x" unfolding v by (rule f(3)[OF that])
qed

subsection \<open>The thresholds\<close>

text \<open>
  The literals \<^verbatim>\<open>0.1\<close> and \<^verbatim>\<open>0.02\<close> denote doubles slightly above one tenth and one
  fiftieth. On integers of the sizes that occur, the comparisons against the rounded
  thresholds decide the same as the comparisons against the exact ones.
\<close>

lemma fl_nat_ge:
  fixes k :: nat
  assumes "of_nat k \<le> x" "k < 2 ^ 53"
  shows "of_nat k \<le> fl x"
proof (cases "k = 0")
  case True
  then show ?thesis using assms(1) fl_nonneg[of x] by simp
next
  case False
  have "int k < 2 ^ 53" using assms(2) by (metis of_nat_less_iff of_nat_numeral of_nat_power)
  moreover have "0 < int k" using False by simp
  moreover have "of_int (int k) \<le> x" using assms(1) by simp
  ultimately have "of_int (int k) \<le> fl x" by (intro fl_int_ge)
  then show ?thesis by simp
qed

lemma below_quotient:
  fixes A D :: nat and z :: rat
  assumes "0 < D" "1 \<le> A" "A < 2 ^ 50"
    and "z \<le> (of_nat A - 1) / of_nat D * (1 + 1 / 2 ^ 53) ^ 3"
  shows "z < of_nat A / of_nat D"
proof -
  have c: "(1 + 1 / 2 ^ 53 :: rat) ^ 3 \<le> 1 + 4 / 2 ^ 53" by (simp add: power3_eq_cube)
  have a0: "0 \<le> (of_nat A :: rat) - 1" using assms(2) by simp
  have "(of_nat A :: rat) < 2 ^ 50" using assms(3) by (metis of_nat_less_iff of_nat_numeral of_nat_power)
  then have a1: "(of_nat A :: rat) - 1 < 2 ^ 50" by simp
  have d: "0 < (of_nat D :: rat)" using assms(1) by simp
  have "(of_nat A - 1) * (1 + 1 / 2 ^ 53 :: rat) ^ 3 \<le> (of_nat A - 1) * (1 + 4 / 2 ^ 53)"
    using c a0 by (rule mult_left_mono)
  also have "\<dots> = (of_nat A - 1) + (of_nat A - 1) * (4 / 2 ^ 53)" by (simp only: distrib_left mult_1_right)
  also have "\<dots> < (of_nat A - 1) + 1"
  proof -
    have "(of_nat A - 1 :: rat) * (4 / 2 ^ 53) \<le> 2 ^ 50 * (4 / 2 ^ 53)"
      using a1 by (intro mult_right_mono) simp_all
    also have "\<dots> < 1" by simp
    finally show ?thesis by simp
  qed
  finally have "(of_nat A - 1) * (1 + 1 / 2 ^ 53 :: rat) ^ 3 < of_nat A" by simp
  then have "(of_nat A - 1) * (1 + 1 / 2 ^ 53 :: rat) ^ 3 / of_nat D < of_nat A / of_nat D"
    using d by (simp add: divide_strict_right_mono)
  with assms(4) show ?thesis by (simp add: field_simps)
qed

lemma lit_0_1_ge: "1 / 10 \<le> lit_0_1" by code_simp

lemma percentage_ge: "1 / 50 \<le> percentage" by code_simp

lemma lit_0_1_le: "lit_0_1 \<le> 1 / 10 * (1 + 1 / 2 ^ 53)"
  unfolding lit_0_1_def using fl_upper[of "1 / 10"] by simp

lemma percentage_le: "percentage \<le> 1 / 50 * (1 + 1 / 2 ^ 53)"
  unfolding percentage_def using fl_upper[of "2 / 100"] by simp

lemma mask_exact:
  fixes g n s :: nat
  assumes n: "0 < n" "n < 2 ^ 32" and s: "0 < s" "s \<le> 255 * n" and g: "g \<le> 255"
  shows "fmul lit_0_1 (fdiv (float_of_nat s) (float_of_nat n)) < of_nat g \<longleftrightarrow> s < 10 * n * g"
proof -
  define u :: rat where "u = 1 / 2 ^ 53"
  define \<mu> :: rat where "\<mu> = of_nat s / of_nat n"
  define m' where "m' = fl \<mu>"
  define T where "T = fl (lit_0_1 * m')"
  have "s < 2 ^ 53" using s(2) n(2) by simp
  moreover have "n < 2 ^ 53" using n(2) by simp
  ultimately have fx: "float_of_nat s = of_nat s" "float_of_nat n = of_nat n"
    by (simp_all add: float_of_nat_exact)
  have T_eq: "fmul lit_0_1 (fdiv (float_of_nat s) (float_of_nat n)) = T"
    by (simp add: T_def m'_def \<mu>_def fmul_def fdiv_def fx)
  have npos: "0 < (of_nat n :: rat)" using n by simp
  have \<mu>pos: "0 < \<mu>" using s n by (simp add: \<mu>_def)
  have upos: "0 \<le> 1 + u" by (simp add: u_def)
  have lpos: "0 < lit_0_1" using lit_0_1_ge by linarith
  have "\<mu> * (1 - u) \<le> m'" using fl_lower[OF \<mu>pos] by (simp add: m'_def u_def)
  moreover have "0 < \<mu> * (1 - u)" using \<mu>pos by (simp add: u_def)
  ultimately have m'pos: "0 < m'" by linarith
  have ppos: "0 < lit_0_1 * m'" using lpos m'pos by simp
  have "T < of_nat g" if lt: "s < 10 * n * g"
  proof -
    define A where "A = 10 * n * g"
    have A1: "1 \<le> A" using lt unfolding A_def by linarith
    have "A \<le> 10 * 2 ^ 32 * 255" unfolding A_def using n(2) g by (intro mult_mono) simp_all
    then have A2: "A < 2 ^ 50" by simp
    have D: "0 < 10 * n" using n by simp
    have "s + 1 \<le> A" using lt by (simp add: A_def)
    then have "(of_nat (s + 1) :: rat) \<le> of_nat A" by (simp only: of_nat_le_iff)
    then have sA: "(of_nat s :: rat) \<le> of_nat A - 1" by simp
    have m'_up: "m' \<le> \<mu> * (1 + u)" using fl_upper[OF \<mu>pos] by (simp add: m'_def u_def)
    have l_up: "lit_0_1 \<le> 1 / 10 * (1 + u)" using lit_0_1_le by (simp add: u_def)
    have "lit_0_1 * m' \<le> (1 / 10 * (1 + u)) * (\<mu> * (1 + u))"
      using l_up m'_up lpos m'pos upos \<mu>pos by (intro mult_mono) simp_all
    then have p_up: "lit_0_1 * m' \<le> \<mu> / 10 * (1 + u) ^ 2" by (simp add: power2_eq_square algebra_simps)
    have "T \<le> lit_0_1 * m' * (1 + u)" using fl_upper[OF ppos] by (simp add: T_def u_def)
    also have "\<dots> \<le> \<mu> / 10 * (1 + u) ^ 2 * (1 + u)" using p_up upos by (rule mult_right_mono)
    also have "\<dots> = \<mu> / 10 * (1 + u) ^ 3" by (simp add: power3_eq_cube power2_eq_square)
    also have "\<dots> \<le> (of_nat A - 1) / of_nat (10 * n) * (1 + u) ^ 3"
    proof -
      have "\<mu> / 10 = of_nat s / of_nat (10 * n)" by (simp add: \<mu>_def)
      also have "\<dots> \<le> (of_nat A - 1) / of_nat (10 * n)" using sA D by (intro divide_right_mono) simp_all
      finally have "\<mu> / 10 \<le> (of_nat A - 1) / of_nat (10 * n)" .
      then show ?thesis using upos by (intro mult_right_mono) simp_all
    qed
    finally have "T \<le> (of_nat A - 1) / of_nat (10 * n) * (1 + 1 / 2 ^ 53) ^ 3" by (simp add: u_def)
    from below_quotient[OF D A1 A2 this] have "T < of_nat A / of_nat (10 * n)" .
    also have "\<dots> = of_nat g" using n by (simp add: A_def)
    finally show ?thesis .
  qed
  moreover have "of_nat g \<le> T" if ge: "10 * n * g \<le> s"
  proof -
    have "(of_nat (10 * g * n) :: rat) \<le> of_nat s" using ge by (simp only: of_nat_le_iff mult_ac)
    then have "(of_nat (10 * g) :: rat) \<le> \<mu>" using npos by (simp add: \<mu>_def le_divide_eq)
    moreover have "10 * g < (2::nat) ^ 53" using g by simp
    ultimately have a: "(of_nat (10 * g) :: rat) \<le> m'" unfolding m'_def by (rule fl_nat_ge)
    have "1 / 10 * (of_nat (10 * g) :: rat) \<le> lit_0_1 * m'"
      using lit_0_1_ge a by (intro mult_mono) simp_all
    then have "(of_nat g :: rat) \<le> lit_0_1 * m'" by simp
    moreover have "g < (2::nat) ^ 53" using g by simp
    ultimately show ?thesis unfolding T_def by (rule fl_nat_ge)
  qed
  ultimately show ?thesis unfolding T_eq by (metis not_less)
qed

lemma count_exact:
  fixes k D :: nat
  assumes "D < 2 ^ 25" "k < 2 ^ 25"
  shows "fmul (float_of_nat D) percentage < of_nat k \<longleftrightarrow> D < 50 * k"
proof -
  define u :: rat where "u = 1 / 2 ^ 53"
  define T where "T = fl (of_nat D * percentage)"
  have "D < 2 ^ 53" using assms(1) by simp
  then have fx: "float_of_nat D = of_nat D" by (rule float_of_nat_exact)
  have T_eq: "fmul (float_of_nat D) percentage = T" by (simp add: T_def fmul_def fx)
  have upos: "0 \<le> 1 + u" by (simp add: u_def)
  have ppos: "0 < percentage" using percentage_ge by linarith
  have "T < of_nat k" if lt: "D < 50 * k"
  proof (cases "D = 0")
    case True
    then have "T = 0" by (simp add: T_def fl_def)
    then show ?thesis using lt by simp
  next
    case False
    then have dpos: "0 < (of_nat D :: rat)" by simp
    define A where "A = 50 * k"
    have A1: "1 \<le> A" using lt unfolding A_def by linarith
    have "A < 50 * 2 ^ 25" using assms(2) by (simp add: A_def)
    then have A2: "A < 2 ^ 50" by simp
    have "D + 1 \<le> A" using lt by (simp add: A_def)
    then have "(of_nat (D + 1) :: rat) \<le> of_nat A" by (simp only: of_nat_le_iff)
    then have dA: "(of_nat D :: rat) \<le> of_nat A - 1" by simp
    have p_up: "percentage \<le> 1 / 50 * (1 + u)" using percentage_le by (simp add: u_def)
    have xpos: "0 < of_nat D * percentage" using dpos ppos by simp
    have "T \<le> of_nat D * percentage * (1 + u)" using fl_upper[OF xpos] by (simp add: T_def u_def)
    also have "\<dots> \<le> of_nat D * (1 / 50 * (1 + u)) * (1 + u)"
      using p_up dpos upos by (intro mult_right_mono mult_left_mono) simp_all
    also have "\<dots> = of_nat D / 50 * (1 + u) ^ 2" by (simp add: power2_eq_square)
    also have "\<dots> \<le> of_nat D / 50 * (1 + u) ^ 3"
    proof -
      have "(1 + u) ^ 2 \<le> (1 + u) ^ 3" by (rule power_increasing) (simp_all add: u_def)
      then show ?thesis using dpos by (intro mult_left_mono) simp_all
    qed
    also have "\<dots> \<le> (of_nat A - 1) / of_nat (50::nat) * (1 + u) ^ 3"
      using dA upos by (intro mult_right_mono divide_right_mono) simp_all
    finally have "T \<le> (of_nat A - 1) / of_nat (50::nat) * (1 + 1 / 2 ^ 53) ^ 3" by (simp add: u_def)
    from below_quotient[OF _ A1 A2 this] have "T < of_nat A / of_nat (50::nat)" by simp
    also have "\<dots> = of_nat k" by (simp add: A_def)
    finally show ?thesis .
  qed
  moreover have "of_nat k \<le> T" if ge: "50 * k \<le> D"
  proof -
    have "(of_nat (50 * k) :: rat) \<le> of_nat D" using ge by (simp only: of_nat_le_iff)
    then have "(of_nat k :: rat) \<le> of_nat D * (1 / 50)" by simp
    also have "\<dots> \<le> of_nat D * percentage" using percentage_ge by (intro mult_left_mono) simp_all
    finally have "(of_nat k :: rat) \<le> of_nat D * percentage" .
    moreover have "k < 2 ^ 53" using assms(2) by simp
    ultimately show ?thesis unfolding T_def by (rule fl_nat_ge)
  qed
  ultimately show ?thesis unfolding T_eq by (metis not_less)
qed

section \<open>The transform on the example images\<close>

text \<open>The floating-point quantities are evaluated first, the rest follows by rewriting.\<close>

lemma strip_f1: "fdiv (float_of_nat 765) (float_of_nat 3) = 255" by code_simp
lemma strip_f2: "fmul lit_0_1 255 = 51 / 2" by code_simp
lemma strip_f3: "gt_float 3 (Some (fmul (float_of_nat 3) percentage))" by code_simp
lemma strip_f4: "gt_float (Suc 0) (Some (fmul (float_of_nat (Suc 0)) percentage))" by code_simp
lemma strip_f5: "new_size_of (3, Suc 0) (fdiv (float_of_nat 2) (float_of_nat 3)) = (2, 0)" by code_simp

lemma n3: "Suc (Suc (Suc 0)) = 3" by simp

lemma strip_gray: "cvtColor_BGR2GRAY strip_1x3 = Inr [[255, 255, 255]]"
  by (simp add: strip_1x3_def white_def channels_def)

lemma strip_thr: "threshold [[255, 255, 255 :: uint8]] = Some (51 / 2)"
  by (simp add: threshold_def np_mean_def n3 strip_f1 strip_f2)

lemma strip_bin: "im_binary [[255, 255, 255 :: uint8]] = [[True, True, True]]"
  by (simp add: im_binary_def strip_thr gt_float_def)

lemma strip_rows: "rows_of strip_1x3 [[255, 255, 255]] = [0]"
  by (simp add: rows_of_def strip_bin row_sums_def count_true_def np_where_gt_def strip_1x3_def n3 strip_f3)

lemma strip_cols: "cols_of strip_1x3 [[255, 255, 255]] = [0, 1, 2]"
  by (simp add: cols_of_def strip_bin col_sums_def count_true_def np_where_gt_def strip_1x3_def strip_f4 upt_rec)

lemma strip_trim: "trim strip_1x3 = Inr strip_1x3"
  by (simp add: trim_def strip_gray strip_rows strip_cols) (simp add: strip_1x3_def slice_def)

lemma strip_raises: "trim_and_resize strip_1x3 2 = Inl (ValueError ''height and width must be > 0'')"
  by (simp add: trim_and_resize_def strip_trim resize_pad_def)
     (simp add: strip_1x3_def channels_def white_def ratio_of_def n3 strip_f5 resize_def)

section \<open>Properties of the crop-and-resize transform\<close>

subsection \<open>The grayscale conversion\<close>

lemma gray_px_zero: "\<forall>c \<in> set px. c = 0 \<Longrightarrow> gray_px px = 0"
  by (cases px rule: gray_px.cases) simp_all

lemma channels_pos: "0 < channels a \<Longrightarrow> a \<noteq> [] \<and> hd a \<noteq> []"
  by (auto simp: channels_def split: if_splits)

lemma cvtColor_ok:
  assumes "channels a = 3 \<or> channels a = 4"
  shows "cvtColor_BGR2GRAY (Array3 a) = Inr (map (map gray_px) a)"
proof -
  have "0 < channels a" using assms by auto
  from channels_pos[OF this] assms show ?thesis by auto
qed

lemma cvtColor_Array2: "is_cv_error (cvtColor_BGR2GRAY (Array2 g))"
  by (simp add: is_cv_error_def)

lemma cvtColor_bad_channels:
  "channels a \<noteq> 3 \<and> channels a \<noteq> 4 \<Longrightarrow> is_cv_error (cvtColor_BGR2GRAY (Array3 a))"
  by (simp add: is_cv_error_def)

lemma trim_cv_error: "is_cv_error (cvtColor_BGR2GRAY im) \<Longrightarrow> is_cv_error (trim_and_resize im S)"
  by (auto simp: is_cv_error_def trim_and_resize_def trim_def split: sum.splits exn.splits)

lemma trim_total:
  assumes "channels a = 3 \<or> channels a = 4"
  shows "\<exists>img. trim (Array3 a) = Inr img"
  by (simp add: trim_def cvtColor_ok[OF assms] Let_def del: cvtColor_BGR2GRAY.simps)

subsection \<open>An image without a bright pixel\<close>

lemma percentage_nonneg: "0 \<le> percentage"
  unfolding percentage_def by (rule fl_nonneg) simp

lemma float_of_nat_nonneg: "0 \<le> float_of_nat n"
  unfolding float_of_nat_def by (rule fl_nonneg) simp

lemma fmul_nonneg: "0 \<le> a \<Longrightarrow> 0 \<le> b \<Longrightarrow> 0 \<le> fmul a b"
  unfolding fmul_def by (rule fl_nonneg) simp

lemma np_where_gt_zeros:
  assumes "\<forall>i < length totals. totals ! i = 0" "0 \<le> t"
  shows "np_where_gt totals t = []"
  using assms by (auto simp: np_where_gt_def gt_float_def filter_empty_conv)

lemma threshold_all_zero:
  assumes "\<forall>row \<in> set g. \<forall>x \<in> set row. x = 0"
  shows "threshold g = None"
proof -
  have "filter (\<lambda>x. x \<noteq> 0) (concat g) = []"
    using assms by (auto simp: filter_empty_conv)
  then show ?thesis by (simp add: threshold_def np_mean_def)
qed

lemma im_binary_nan: "threshold g = None \<Longrightarrow> im_binary g = map (map (\<lambda>x. False)) g"
  by (simp add: im_binary_def gt_float_def)

lemma rows_cols_nan:
  assumes "threshold g = None" and "rect g" and "g \<noteq> []"
  shows "rows_of img g = []" "cols_of img g = []"
proof -
  have r: "\<forall>i < length (row_sums (im_binary g)). row_sums (im_binary g) ! i = 0"
    by (simp add: im_binary_nan[OF assms(1)] row_sums_def count_true_def)
  have "count_true (map (\<lambda>row. row ! j) (map (map (\<lambda>x. False)) g)) = 0" if "j < length (hd g)" for j
    using that assms(2) by (auto simp: count_true_def filter_empty_conv rect_def)
  then have c: "\<forall>i < length (col_sums (im_binary g)). col_sums (im_binary g) ! i = 0"
    using assms(3) by (simp add: im_binary_nan[OF assms(1)] col_sums_def hd_map)
  have t: "0 \<le> fmul (float_of_nat (shape1 img)) percentage"
      "0 \<le> fmul (float_of_nat (shape0 img)) percentage"
    by (simp_all add: fmul_nonneg float_of_nat_nonneg percentage_nonneg)
  show "rows_of img g = []" unfolding rows_of_def by (rule np_where_gt_zeros[OF r t(1)])
  show "cols_of img g = []" unfolding cols_of_def by (rule np_where_gt_zeros[OF c t(2)])
qed

lemma rect_map: "rect a \<Longrightarrow> rect (map (map f) a)"
  by (cases a) (auto simp: rect_def)

lemma trim_all_zero:
  assumes "channels a = 3 \<or> channels a = 4" and "rect a"
    and "\<forall>row \<in> set a. \<forall>px \<in> set row. \<forall>c \<in> set px. c = 0"
  shows "threshold (map (map gray_px) a) = None"
    and "rows_of (Array3 a) (map (map gray_px) a) = []"
    and "cols_of (Array3 a) (map (map gray_px) a) = []"
    and "trim (Array3 a) = Inr (Array3 a)"
proof -
  have "\<forall>row \<in> set (map (map gray_px) a). \<forall>x \<in> set row. x = 0"
    using assms(3) by (auto simp: gray_px_zero)
  then show t: "threshold (map (map gray_px) a) = None" by (rule threshold_all_zero)
  have "0 < channels a" using assms(1) by auto
  then have "map (map gray_px) a \<noteq> []" using channels_pos by auto
  note rc = rows_cols_nan[OF t rect_map[OF assms(2)] this]
  show r: "rows_of (Array3 a) (map (map gray_px) a) = []" by (rule rc(1))
  show "cols_of (Array3 a) (map (map gray_px) a) = []" by (rule rc(2))
  show "trim (Array3 a) = Inr (Array3 a)"
    by (simp add: trim_def cvtColor_ok[OF assms(1)] r del: cvtColor_BGR2GRAY.simps)
qed

text \<open>
  Claim C3. For an image in which every pixel is zero and which the conversion of line 23
  accepts (three or four channels), the cropping analysis does not raise: the mean of the
  empty selection is NaN, every comparison with it is false, no row and no column
  qualifies, and the image handed to the resize step is the original image.
\<close>

theorem all_black_image_is_not_cropped:
  assumes "channels a = 3 \<or> channels a = 4" and "rect a"
    and "\<forall>row \<in> set a. \<forall>px \<in> set row. \<forall>c \<in> set px. c = 0"
  shows "cvtColor_BGR2GRAY (Array3 a) = Inr (map (map gray_px) a)
       \<and> threshold (map (map gray_px) a) = None
       \<and> rows_of (Array3 a) (map (map gray_px) a) = []
       \<and> cols_of (Array3 a) (map (map gray_px) a) = []
       \<and> trim (Array3 a) = Inr (Array3 a)
       \<and> trim_and_resize (Array3 a) S = resize_pad (Array3 a) S"
  using trim_all_zero[OF assms] cvtColor_ok[OF assms(1)]
  by (simp add: trim_and_resize_def)

lemma black_2x3_ok:
  "channels [[black, black, black], [black, black, black]] = 3"
  "rect [[black, black, black], [black, black, black]]"
  "\<forall>row \<in> set [[black, black, black], [black, black, black]]. \<forall>px \<in> set row. \<forall>c \<in> set px. c = 0"
  by (simp_all add: channels_def black_def rect_def)

theorem all_black_image_is_not_cropped_witness:
  "channels [[black, black, black], [black, black, black]] = 3
   \<and> rect [[black, black, black], [black, black, black]]
   \<and> list_all (list_all (list_all (\<lambda>c. c = 0))) [[black, black, black], [black, black, black]]
   \<and> rows_of black_2x3 [[0, 0, 0], [0, 0, 0]] = []
   \<and> cols_of black_2x3 [[0, 0, 0], [0, 0, 0]] = []
   \<and> trim black_2x3 = Inr black_2x3"
proof -
  have g: "map (map gray_px) [[black, black, black], [black, black, black]] = [[0, 0, 0], [0, 0, 0]]"
    by (simp add: black_def)
  note t = all_black_image_is_not_cropped[of "[[black, black, black], [black, black, black]]" 10,
      OF disjI1[OF black_2x3_ok(1)] black_2x3_ok(2) black_2x3_ok(3), unfolded g, folded black_2x3_def]
  have l: "list_all (list_all (list_all (\<lambda>c. c = 0))) [[black, black, black], [black, black, black]]"
    by (simp add: black_def)
  from t black_2x3_ok(1) black_2x3_ok(2) l show ?thesis by blast
qed

subsection \<open>The accepted channel counts\<close>

text \<open>
  Claim C9 says that an image of any channel count is accepted, a grayscale image in
  particular. The first statement of \<^verbatim>\<open>trim_and_resize\<close> converts from BGR, and OpenCV
  refuses that conversion for a single-channel array: on the 1 by 1 grayscale image with
  value 7 and output size 4 the call raises \<^verbatim>\<open>cv2.error\<close> and produces no output.
\<close>

theorem grayscale_input_raises:
  "shape0 gray_1x1 = 1 \<and> shape1 gray_1x1 = 1
   \<and> is_cv_error (cvtColor_BGR2GRAY gray_1x1) \<and> is_cv_error (trim_and_resize gray_1x1 4)"
  by (simp add: gray_1x1_def trim_and_resize_def trim_def is_cv_error_def)

text \<open>
  Claim C9, amended. \<^verbatim>\<open>trim_and_resize\<close> accepts images with three or four channels only.
  For every single-channel input, a two-dimensional array or one with a channel axis of
  length 1, and for every other channel count that is neither 3 nor 4, the grayscale
  conversion raises \<^verbatim>\<open>cv2.error\<close> and no output is produced; for every image with 3 or 4
  channels, of any height and width, the conversion and the cropping analysis succeed.
\<close>

theorem only_colour_images_are_accepted:
  "is_cv_error (trim_and_resize (Array2 g) S)
   \<and> (channels a \<noteq> 3 \<and> channels a \<noteq> 4 \<longrightarrow> is_cv_error (trim_and_resize (Array3 a) S))
   \<and> (channels a = 3 \<or> channels a = 4 \<longrightarrow>
        cvtColor_BGR2GRAY (Array3 a) = Inr (map (map gray_px) a) \<and> (\<exists>img. trim (Array3 a) = Inr img))"
proof (intro conjI impI)
  show "is_cv_error (trim_and_resize (Array2 g) S)" by (rule trim_cv_error[OF cvtColor_Array2])
next
  assume "channels a \<noteq> 3 \<and> channels a \<noteq> 4"
  then show "is_cv_error (trim_and_resize (Array3 a) S)" by (rule trim_cv_error[OF cvtColor_bad_channels])
next
  assume "channels a = 3 \<or> channels a = 4"
  then show "cvtColor_BGR2GRAY (Array3 a) = Inr (map (map gray_px) a)" by (rule cvtColor_ok)
next
  assume "channels a = 3 \<or> channels a = 4"
  then show "\<exists>img. trim (Array3 a) = Inr img" by (rule trim_total)
qed

theorem only_colour_images_are_accepted_witness:
  "channels [[[7]]] \<noteq> 3 \<and> channels [[[7]]] \<noteq> 4
   \<and> is_cv_error (trim_and_resize (Array3 [[[7]]]) 4)
   \<and> is_cv_error (trim_and_resize (Array2 [[7]]) 4)
   \<and> channels [[black, black, black], [black, black, black]] = 3
   \<and> cvtColor_BGR2GRAY black_2x3 = Inr [[0, 0, 0], [0, 0, 0]]
   \<and> (\<exists>img. trim black_2x3 = Inr img)"
proof -
  have c: "channels [[[7]]] \<noteq> 3" "channels [[[7]]] \<noteq> 4"
      "channels [[black, black, black], [black, black, black]] = 3"
    by (simp_all add: channels_def black_def)
  have g: "map (map gray_px) [[black, black, black], [black, black, black]] = [[0, 0, 0], [0, 0, 0]]"
    by (simp add: black_def)
  note t1 = only_colour_images_are_accepted[of "[[7]]" 4 "[[[7]]]"]
  note t2 = only_colour_images_are_accepted[of "[[7]]" 4 "[[black, black, black], [black, black, black]]"]
  have 1: "is_cv_error (trim_and_resize (Array2 [[7]]) 4)" by (rule t1[THEN conjunct1])
  have 2: "is_cv_error (trim_and_resize (Array3 [[[7]]]) 4)"
    by (rule t1[THEN conjunct2, THEN conjunct1, THEN mp, OF conjI[OF c(1) c(2)]])
  note 3 = t2[THEN conjunct2, THEN conjunct2, THEN mp, OF disjI1[OF c(3)], unfolded g, folded black_2x3_def]
  from c 1 2 3 show ?thesis by blast
qed

section \<open>Properties of the batch driver\<close>

subsection \<open>Auxiliary facts\<close>

lemma path_exists_print_line [simp]: "path_exists (print_line s w) p = path_exists w p"
  by (simp add: path_exists_def print_line_def)

lemma print_line_sel [simp]:
  "dirs (print_line s w) = dirs w" "files (print_line s w) = files w"
  "stdout (print_line s w) = stdout w @ [s]"
  by (simp_all add: print_line_def)

lemma only_dirs_refl [simp]: "only_dirs w w"
  by (simp add: only_dirs_def)

lemma only_dirs_trans: "only_dirs w w1 \<Longrightarrow> only_dirs w1 w2 \<Longrightarrow> only_dirs w w2"
  by (auto simp: only_dirs_def)

lemma only_dirs_exists: "only_dirs w w' \<Longrightarrow> path_exists w q \<Longrightarrow> path_exists w' q"
  by (auto simp: only_dirs_def path_exists_def)

lemma mkdir_only_dirs: "mkdir E p w = (r, w') \<Longrightarrow> only_dirs w w'"
  by (auto simp: mkdir_def only_dirs_def split: if_splits option.splits)

lemma mkdir_made: "mkdir E p w = (None, w') \<Longrightarrow> p \<in> dirs w'"
  by (auto simp: mkdir_def split: if_splits option.splits)

lemma mkdir_failed: "mkdir E p w = (Some e, w') \<Longrightarrow> w' = w"
  by (auto simp: mkdir_def split: if_splits option.splits)

lemma mk_heads_only_dirs: "mk_heads E hs w = (r, w') \<Longrightarrow> only_dirs w w'"
proof (induction hs arbitrary: r w')
  case Nil
  then show ?case by simp
next
  case (Cons h hs)
  show ?case
  proof (cases "path_exists w h")
    case True
    then show ?thesis using Cons.prems by simp
  next
    case False
    obtain r1 w1 where m: "mk_heads E hs w = (r1, w1)" by (cases "mk_heads E hs w") auto
    have 1: "only_dirs w w1" by (rule Cons.IH[OF m])
    show ?thesis
    proof (cases r1)
      case None
      then have "mkdir E h w1 = (r, w')" using Cons.prems False m by simp
      from mkdir_only_dirs[OF this] 1 show ?thesis by (rule only_dirs_trans[rotated])
    next
      case (Some e)
      then have "w' = w1" using Cons.prems False m by simp
      then show ?thesis using 1 by simp
    qed
  qed
qed

lemma makedirs_only_dirs: "makedirs E p w = (r, w') \<Longrightarrow> only_dirs w w'"
proof -
  assume a: "makedirs E p w = (r, w')"
  obtain r1 w1 where m: "mk_heads E (rev (ancestors p)) w = (r1, w1)"
    by (cases "mk_heads E (rev (ancestors p)) w") auto
  have 1: "only_dirs w w1" by (rule mk_heads_only_dirs[OF m])
  show ?thesis
  proof (cases r1)
    case None
    then have "mkdir E p w1 = (r, w')" using a m by (simp add: makedirs_def)
    from mkdir_only_dirs[OF this] 1 show ?thesis by (rule only_dirs_trans[rotated])
  next
    case (Some e)
    then have "w' = w1" using a m by (simp add: makedirs_def)
    then show ?thesis using 1 by simp
  qed
qed

lemma makedirs_made: "makedirs E p w = (None, w') \<Longrightarrow> p \<in> dirs w'"
proof -
  assume a: "makedirs E p w = (None, w')"
  obtain r1 w1 where m: "mk_heads E (rev (ancestors p)) w = (r1, w1)"
    by (cases "mk_heads E (rev (ancestors p)) w") auto
  have "r1 = None" using a m by (cases r1) (simp_all add: makedirs_def)
  then have "mkdir E p w1 = (None, w')" using a m by (simp add: makedirs_def)
  then show ?thesis by (rule mkdir_made)
qed

lemma ensure_dir_only_dirs: "ensure_dir E p w = (r, w') \<Longrightarrow> only_dirs w w'"
  by (auto simp: ensure_dir_def split: if_splits dest: makedirs_only_dirs)

lemma ensure_dir_there: "path_exists w p \<Longrightarrow> ensure_dir E p w = (None, w)"
  by (simp add: ensure_dir_def)

lemma ensure_dir_made:
  assumes "ensure_dir E p w = (None, w')"
  shows "path_exists w' p" and "files w p = None \<Longrightarrow> p \<in> dirs w'"
proof -
  show "path_exists w' p"
  proof (cases "path_exists w p")
    case True
    then show ?thesis using assms by (simp add: ensure_dir_def)
  next
    case False
    then have "makedirs E p w = (None, w')" using assms by (simp add: ensure_dir_def)
    then show ?thesis by (simp add: makedirs_made path_exists_def)
  qed
  show "p \<in> dirs w'" if f: "files w p = None"
  proof (cases "path_exists w p")
    case True
    then have "p \<in> dirs w" using f by (simp add: path_exists_def)
    then show ?thesis using True assms by (simp add: ensure_dir_def)
  next
    case False
    then have "makedirs E p w = (None, w')" using assms by (simp add: ensure_dir_def)
    then show ?thesis by (rule makedirs_made)
  qed
qed

lemma imread_only_dirs: "only_dirs w w' \<Longrightarrow> imread E w' q = imread E w q"
  by (simp add: imread_def only_dirs_def)

text \<open>The \<^verbatim>\<open>try\<close> block, with the guarded directory creation as one step.\<close>

lemma try_body_eq:
  "try_body E ip op S w =
     (case ensure_dir E (os_path_dirname op) w of
        (Some e, w1) \<Rightarrow> (Some e, w1)
      | (None, w1) \<Rightarrow>
          (case imread E w ip of
             None \<Rightarrow> (None, w1)
           | Some image_original \<Rightarrow>
               (case trim_and_resize image_original S of
                  Inl e \<Rightarrow> (Some e, w1)
                | Inr t \<Rightarrow>
                    (case apply_clahe E t of
                       Inl e \<Rightarrow> (Some e, w1)
                     | Inr c \<Rightarrow>
                         (case imwrite E op c of
                            Inl e \<Rightarrow> (Some e, w1)
                          | Inr written \<Rightarrow>
                              (None, print_line (''Processed and saved: '' @ op)
                                 (case written of None \<Rightarrow> w1
                                  | Some b \<Rightarrow> w1\<lparr>files := (files w1)(op \<mapsto> b)\<rparr>)))))))"
proof -
  obtain r1 w1 where e: "ensure_dir E (os_path_dirname op) w = (r1, w1)"
    by (cases "ensure_dir E (os_path_dirname op) w") auto
  then have e': "(if \<not> path_exists w (os_path_dirname op)
                  then makedirs E (os_path_dirname op) w else (None, w)) = (r1, w1)"
    by (simp add: ensure_dir_def)
  have i: "imread E w1 ip = imread E w ip"
    by (rule imread_only_dirs[OF ensure_dir_only_dirs[OF e]])
  show ?thesis unfolding try_body_def Let_def e e' by (cases r1) (simp_all add: i)
qed

lemma try_body_shape:
  assumes "try_body E ip op S w = (r, w')"
  obtains w1 r1 where "ensure_dir E (os_path_dirname op) w = (r1, w1)"
    and "w' = w1
       \<or> (r1 = None \<and> w' = print_line (''Processed and saved: '' @ op) w1)
       \<or> (r1 = None \<and> (\<exists>b. w' = print_line (''Processed and saved: '' @ op)
                                   (w1\<lparr>files := (files w1)(op \<mapsto> b)\<rparr>)))"
proof -
  obtain r1 w1 where e: "ensure_dir E (os_path_dirname op) w = (r1, w1)"
    by (cases "ensure_dir E (os_path_dirname op) w") auto
  have "w' = w1
       \<or> (r1 = None \<and> w' = print_line (''Processed and saved: '' @ op) w1)
       \<or> (r1 = None \<and> (\<exists>b. w' = print_line (''Processed and saved: '' @ op)
                                   (w1\<lparr>files := (files w1)(op \<mapsto> b)\<rparr>)))"
    using assms unfolding try_body_eq e
    by (cases r1) (auto split: option.splits sum.splits)
  then show ?thesis using that e by blast
qed

lemma try_body_dirs:
  assumes "try_body E ip op S w = (r, w')"
  shows "dirs w \<subseteq> dirs w'"
proof -
  obtain w1 r1 where e: "ensure_dir E (os_path_dirname op) w = (r1, w1)"
    and s: "w' = w1
       \<or> (r1 = None \<and> w' = print_line (''Processed and saved: '' @ op) w1)
       \<or> (r1 = None \<and> (\<exists>b. w' = print_line (''Processed and saved: '' @ op)
                                   (w1\<lparr>files := (files w1)(op \<mapsto> b)\<rparr>)))"
    by (rule try_body_shape[OF assms])
  have "dirs w \<subseteq> dirs w1" using ensure_dir_only_dirs[OF e] by (simp add: only_dirs_def)
  then show ?thesis using s by auto
qed

lemma try_body_files:
  assumes "try_body E ip op S w = (r, w')"
  shows "files w' = files w \<or> (\<exists>b. files w' = (files w)(op \<mapsto> b))"
proof -
  obtain w1 r1 where e: "ensure_dir E (os_path_dirname op) w = (r1, w1)"
    and s: "w' = w1
       \<or> (r1 = None \<and> w' = print_line (''Processed and saved: '' @ op) w1)
       \<or> (r1 = None \<and> (\<exists>b. w' = print_line (''Processed and saved: '' @ op)
                                   (w1\<lparr>files := (files w1)(op \<mapsto> b)\<rparr>)))"
    by (rule try_body_shape[OF assms])
  have "files w1 = files w" using ensure_dir_only_dirs[OF e] by (simp add: only_dirs_def)
  then show ?thesis using s by auto
qed

lemma try_body_files_le:
  assumes "try_body E ip op S w = (r, w')" "\<not> path_exists w op"
  shows "files w \<subseteq>\<^sub>m files w'"
proof -
  have "files w op = None" using assms(2) by (simp add: path_exists_def)
  then show ?thesis using try_body_files[OF assms(1)] by (auto simp: map_le_def)
qed

lemma process_file_no_raise: "fst (process_file E sp outp s S f w) = None"
  by (simp add: process_file_def Let_def split: prod.splits option.splits)

lemma process_file_mono:
  assumes "process_file E sp outp s S f w = (r, w')"
  shows "files w \<subseteq>\<^sub>m files w' \<and> dirs w \<subseteq> dirs w'"
proof (cases "path_exists w (os_path_join (os_path_join outp s) f)")
  case True
  then show ?thesis using assms by (auto simp: process_file_def Let_def)
next
  case False
  obtain r0 w0 where tb: "try_body E (os_path_join sp f) (os_path_join (os_path_join outp s) f) S w = (r0, w0)"
    by (cases "try_body E (os_path_join sp f) (os_path_join (os_path_join outp s) f) S w") auto
  have "files w' = files w0 \<and> dirs w' = dirs w0"
    using assms False tb by (auto simp: process_file_def Let_def split: option.splits)
  then show ?thesis using try_body_files_le[OF tb False] try_body_dirs[OF tb] by simp
qed

lemma process_files_mono:
  "process_files E sp outp s S fs w = (r, w') \<Longrightarrow> files w \<subseteq>\<^sub>m files w' \<and> dirs w \<subseteq> dirs w'"
proof (induction fs arbitrary: w)
  case Nil
  then show ?case by simp
next
  case (Cons f fs)
  obtain r1 w1 where pf: "process_file E sp outp s S f w = (r1, w1)"
    by (cases "process_file E sp outp s S f w") auto
  have r1: "r1 = None" using process_file_no_raise[of E sp outp s S f w] pf by simp
  have rest: "process_files E sp outp s S fs w1 = (r, w')" using Cons.prems pf r1 by simp
  from Cons.IH[OF rest] process_file_mono[OF pf] show ?case
    by (meson map_le_trans subset_trans)
qed

lemma process_subfolder_mono:
  "process_subfolder E inp outp S s w = (r, w') \<Longrightarrow> files w \<subseteq>\<^sub>m files w' \<and> dirs w \<subseteq> dirs w'"
  by (auto simp: process_subfolder_def Let_def split: if_splits sum.splits dest: process_files_mono)

lemma process_subfolders_mono:
  "process_subfolders E inp outp S ss w = (r, w') \<Longrightarrow> files w \<subseteq>\<^sub>m files w' \<and> dirs w \<subseteq> dirs w'"
proof (induction ss arbitrary: w)
  case Nil
  then show ?case by simp
next
  case (Cons s ss)
  obtain r1 w1 where ps: "process_subfolder E inp outp S s w = (r1, w1)"
    by (cases "process_subfolder E inp outp S s w") auto
  show ?case
  proof (cases r1)
    case None
    then have "process_subfolders E inp outp S ss w1 = (r, w')" using Cons.prems ps by simp
    from Cons.IH[OF this] process_subfolder_mono[OF ps] show ?thesis
      by (meson map_le_trans subset_trans)
  next
    case (Some e)
    then have "w' = w1" using Cons.prems ps by simp
    then show ?thesis using process_subfolder_mono[OF ps] by simp
  qed
qed

lemma run_eq:
  "process_and_save_images E inp outp S w =
     (case ensure_dir E outp w of
        (Some e, w0) \<Rightarrow> (Some e, w0)
      | (None, w0) \<Rightarrow> process_subfolders E inp outp S subfolders w0)"
  by (simp add: process_and_save_images_def ensure_dir_def)

lemma run_mono:
  assumes "process_and_save_images E inp outp S w = (r, w')"
  shows "files w \<subseteq>\<^sub>m files w' \<and> dirs w \<subseteq> dirs w'"
proof -
  obtain r0 w0 where e: "ensure_dir E outp w = (r0, w0)"
    by (cases "ensure_dir E outp w") auto
  have o: "files w0 = files w \<and> dirs w \<subseteq> dirs w0"
    using ensure_dir_only_dirs[OF e] by (simp add: only_dirs_def)
  show ?thesis
  proof (cases r0)
    case None
    then have "process_subfolders E inp outp S subfolders w0 = (r, w')"
      using assms e by (simp add: run_eq)
    from process_subfolders_mono[OF this] o show ?thesis by auto
  next
    case (Some x)
    then have "w' = w0" using assms e by (simp add: run_eq)
    then show ?thesis using o by simp
  qed
qed

subsection \<open>One file\<close>

lemma process_file_unfold:
  "process_file E sp outp s S f w =
     (if path_exists w (os_path_join (os_path_join outp s) f)
      then (None, print_line (''Skipping '' @ os_path_join (os_path_join outp s) f @ '', already exists.'') w)
      else (case try_body E (os_path_join sp f) (os_path_join (os_path_join outp s) f) S w of
              (Some e, w') \<Rightarrow> (None, print_line (''Error processing '' @ os_path_join sp f @ '': '' @ str_exn e) w')
            | (None, w') \<Rightarrow> (None, w')))"
  by (simp add: process_file_def Let_def)

lemma process_file_load_fails:
  assumes "\<not> path_exists w (os_path_join (os_path_join outp s) f)"
    and "ensure_dir E (os_path_dirname (os_path_join (os_path_join outp s) f)) w = (None, w1)"
    and "imread E w1 (os_path_join sp f) = None"
  shows "process_file E sp outp s S f w = (None, w1)"
proof -
  have "imread E w (os_path_join sp f) = None"
    using imread_only_dirs[OF ensure_dir_only_dirs[OF assms(2)]] assms(3) by simp
  then show ?thesis using assms(1,2) by (simp add: process_file_unfold try_body_eq)
qed

lemma ex_paths:
  "os_path_join ''in/0'' ''a.PNG'' = ''in/0/a.PNG''"
  "os_path_join ''in/0'' ''b.jpeg'' = ''in/0/b.jpeg''"
  "os_path_join (os_path_join ''out'' ''0'') ''a.PNG'' = ''out/0/a.PNG''"
  "os_path_join (os_path_join ''out'' ''0'') ''b.jpeg'' = ''out/0/b.jpeg''"
  "os_path_dirname ''out/0/a.PNG'' = ''out/0''"
  "os_path_dirname ''out/0/b.jpeg'' = ''out/0''"
  by (simp_all add: os_path_join_def os_path_dirname_def)

lemma ex_ancestors: "ancestors ''out/0'' = [''out'']" "ancestors ''out'' = []"
  by code_simp+

lemma ensure_dir_world0:
  "ensure_dir env0 ''out/0'' world0
     = (None, world0\<lparr>dirs := insert ''out/0'' (insert ''out'' (dirs world0))\<rparr>)"
  by (simp add: ensure_dir_def makedirs_def ex_ancestors mkdir_def path_exists_def
        world0_def env0_def)

lemma ensure_dir_world4:
  "ensure_dir env0 ''out/0'' world4
     = (Some (NotADirectoryError (''[Errno 20] Not a directory: '' @ quoted ''out/0'')), world4)"
  by (simp add: ensure_dir_def makedirs_def ex_ancestors mkdir_def path_exists_def
        world4_def env0_def)

text \<open>
  Claim C10 says that the output subdirectory exists after every attempt on a file without
  output. The directory is indeed made before the load, but \<^verbatim>\<open>os.makedirs\<close> can raise, and
  the \<^verbatim>\<open>except\<close> clause then only prints. Where the output root \<^verbatim>\<open>out\<close> is a regular file,
  the attempt on \<^verbatim>\<open>a.PNG\<close> ends with \<^verbatim>\<open>out/0\<close> still missing and one error line printed.
\<close>

theorem output_subdir_missing_after_failed_makedirs:
  "\<not> path_exists world4 ''out/0/a.PNG''
   \<and> \<not> path_exists (snd (process_file env0 ''in/0'' ''out'' ''0'' 2 ''a.PNG'' world4)) ''out/0''
   \<and> stdout (snd (process_file env0 ''in/0'' ''out'' ''0'' 2 ''a.PNG'' world4))
       = [''Error processing in/0/a.PNG: [Errno 20] Not a directory: '' @ quoted ''out/0'']"
proof -
  have a: "\<not> path_exists world4 ''out/0/a.PNG''" "\<not> path_exists world4 ''out/0''"
    "stdout world4 = []"
    by (simp_all add: path_exists_def world4_def)
  have "process_file env0 ''in/0'' ''out'' ''0'' 2 ''a.PNG'' world4
      = (None, print_line (''Error processing in/0/a.PNG: [Errno 20] Not a directory: ''
                             @ quoted ''out/0'') world4)"
    using a(1) by (simp add: process_file_unfold ex_paths try_body_eq ensure_dir_world4)
  then show ?thesis using a by simp
qed

text \<open>
  Claim C10, amended. The output subdirectory is made before the source image is loaded:
  for every file whose output path does not exist, when the subdirectory path is not a
  regular file and the guarded \<^verbatim>\<open>os.makedirs\<close> does not raise, the subdirectory is a
  directory on disk after the attempt, whatever the load and the later steps did; and when
  the load fails, the state after the attempt is the one the directory step left: no file
  has been written and nothing has been printed.
\<close>

theorem output_subdir_created_before_load:
  assumes "\<not> path_exists w (os_path_join (os_path_join outp s) f)"
    and "files w (os_path_dirname (os_path_join (os_path_join outp s) f)) = None"
    and "ensure_dir E (os_path_dirname (os_path_join (os_path_join outp s) f)) w = (None, w1)"
  shows "os_path_dirname (os_path_join (os_path_join outp s) f)
           \<in> dirs (snd (process_file E sp outp s S f w))
       \<and> (imread E w1 (os_path_join sp f) = None \<longrightarrow>
            snd (process_file E sp outp s S f w) = w1
          \<and> files (snd (process_file E sp outp s S f w)) = files w
          \<and> stdout (snd (process_file E sp outp s S f w)) = stdout w)"
proof -
  let ?out = "os_path_join (os_path_join outp s) f"
  let ?d = "os_path_dirname ?out"
  obtain r w2 where tb: "try_body E (os_path_join sp f) ?out S w = (r, w2)"
    by (cases "try_body E (os_path_join sp f) ?out S w") auto
  have d1: "?d \<in> dirs w1" by (rule ensure_dir_made(2)[OF assms(3) assms(2)])
  obtain w1' r1 where e: "ensure_dir E ?d w = (r1, w1')"
    and sh: "w2 = w1'
       \<or> (r1 = None \<and> w2 = print_line (''Processed and saved: '' @ ?out) w1')
       \<or> (r1 = None \<and> (\<exists>b. w2 = print_line (''Processed and saved: '' @ ?out)
                                   (w1'\<lparr>files := (files w1')(?out \<mapsto> b)\<rparr>)))"
    by (rule try_body_shape[OF tb])
  have "w1' = w1" using e assms(3) by simp
  then have "?d \<in> dirs w2" using sh d1 by auto
  then have 1: "?d \<in> dirs (snd (process_file E sp outp s S f w))"
    using assms(1) tb by (cases r) (simp_all add: process_file_unfold)
  have o: "files w1 = files w \<and> stdout w1 = stdout w"
    using ensure_dir_only_dirs[OF assms(3)] by (simp add: only_dirs_def)
  have 2: "imread E w1 (os_path_join sp f) = None \<longrightarrow>
            snd (process_file E sp outp s S f w) = w1
          \<and> files (snd (process_file E sp outp s S f w)) = files w
          \<and> stdout (snd (process_file E sp outp s S f w)) = stdout w"
    using process_file_load_fails[OF assms(1) assms(3), of sp S] o by simp
  show ?thesis by (rule conjI[OF 1 2])
qed

theorem output_subdir_created_before_load_witness:
  "\<not> path_exists world0 ''out/0/b.jpeg''
   \<and> files world0 ''out/0'' = None
   \<and> fst (ensure_dir env0 ''out/0'' world0) = None
   \<and> imread env0 (snd (ensure_dir env0 ''out/0'' world0)) ''in/0/b.jpeg'' = None
   \<and> ''out/0'' \<in> dirs (snd (process_file env0 ''in/0'' ''out'' ''0'' 2000 ''b.jpeg'' world0))
   \<and> files (snd (process_file env0 ''in/0'' ''out'' ''0'' 2000 ''b.jpeg'' world0)) = files world0
   \<and> stdout (snd (process_file env0 ''in/0'' ''out'' ''0'' 2000 ''b.jpeg'' world0)) = []"
proof -
  have a: "\<not> path_exists world0 (os_path_join (os_path_join ''out'' ''0'') ''b.jpeg'')"
    by (simp add: ex_paths path_exists_def world0_def)
  have b: "files world0 (os_path_dirname (os_path_join (os_path_join ''out'' ''0'') ''b.jpeg'')) = None"
    by (simp add: ex_paths world0_def)
  have c: "ensure_dir env0 (os_path_dirname (os_path_join (os_path_join ''out'' ''0'') ''b.jpeg'')) world0
      = (None, world0\<lparr>dirs := insert ''out/0'' (insert ''out'' (dirs world0))\<rparr>)"
    by (simp add: ex_paths ensure_dir_world0)
  have d: "imread env0 (world0\<lparr>dirs := insert ''out/0'' (insert ''out'' (dirs world0))\<rparr>) ''in/0/b.jpeg'' = None"
    by (simp add: imread_def world0_def env0_def)
  have e: "stdout world0 = []" by (simp add: world0_def)
  from output_subdir_created_before_load[OF a b c, of "''in/0''" 2000] a b d e
  show ?thesis by (simp add: ex_paths ensure_dir_world0)
qed

text \<open>
  Claim C7. An exception raised while one file is processed (by the directory creation, the
  load, the transform, the enhancement or the write) never leaves the iteration: the
  iteration ends normally, the loop goes on with the remaining files from the state the
  iteration left, and the line printed last names the input path and the message of the
  exception.
\<close>

theorem per_file_exceptions_are_caught:
  "fst (process_file E sp outp s S f w) = None
   \<and> process_files E sp outp s S (f # rest) w
       = process_files E sp outp s S rest (snd (process_file E sp outp s S f w))
   \<and> (\<forall>e w1. \<not> path_exists w (os_path_join (os_path_join outp s) f)
         \<and> try_body E (os_path_join sp f) (os_path_join (os_path_join outp s) f) S w = (Some e, w1)
        \<longrightarrow> snd (process_file E sp outp s S f w)
              = print_line (''Error processing '' @ os_path_join sp f @ '': '' @ str_exn e) w1)"
proof -
  have a: "fst (process_file E sp outp s S f w) = None" by (rule process_file_no_raise)
  then have "process_file E sp outp s S f w = (None, snd (process_file E sp outp s S f w))"
    by (metis prod.collapse)
  then have b: "process_files E sp outp s S (f # rest) w
       = process_files E sp outp s S rest (snd (process_file E sp outp s S f w))"
    by (metis (mono_tags, lifting) process_files.simps(2) case_prod_conv option.simps(4))
  show ?thesis using a b by (simp add: process_file_unfold)
qed

theorem per_file_exceptions_are_caught_witness:
  "\<not> path_exists world0 ''out/0/a.PNG''
   \<and> try_body env0 ''in/0/a.PNG'' ''out/0/a.PNG'' 2 world0
       = (Some (ValueError ''height and width must be > 0''),
          world0\<lparr>dirs := insert ''out/0'' (insert ''out'' (dirs world0))\<rparr>)
   \<and> snd (process_file env0 ''in/0'' ''out'' ''0'' 2 ''a.PNG'' world0)
       = print_line ''Error processing in/0/a.PNG: height and width must be > 0''
           (world0\<lparr>dirs := insert ''out/0'' (insert ''out'' (dirs world0))\<rparr>)"
proof -
  have a: "\<not> path_exists world0 ''out/0/a.PNG''"
    by (simp add: path_exists_def world0_def)
  have b: "try_body env0 ''in/0/a.PNG'' ''out/0/a.PNG'' 2 world0
       = (Some (ValueError ''height and width must be > 0''),
          world0\<lparr>dirs := insert ''out/0'' (insert ''out'' (dirs world0))\<rparr>)"
    by (simp add: try_body_eq ex_paths ensure_dir_world0)
       (simp add: imread_def world0_def env0_def strip_raises)
  from per_file_exceptions_are_caught[of env0 "''in/0''" "''out''" "''0''" 2 "''a.PNG''" world0 "[]"] a b
  show ?thesis by (simp add: ex_paths)
qed

subsection \<open>Running again\<close>

lemma process_file_skip:
  "path_exists w (os_path_join (os_path_join outp s) f) \<Longrightarrow>
   process_file E sp outp s S f w
     = (None, print_line (''Skipping '' @ os_path_join (os_path_join outp s) f @ '', already exists.'') w)"
  by (simp add: process_file_unfold)

lemma process_files_all_skipped:
  assumes "\<forall>f \<in> set fs. path_exists w (os_path_join (os_path_join outp s) f)"
  shows "process_files E sp outp s S fs w
     = (None, w\<lparr>stdout := stdout w @ map (\<lambda>f. ''Skipping '' @ os_path_join (os_path_join outp s) f @ '', already exists.'') fs\<rparr>)"
  using assms
proof (induction fs arbitrary: w)
  case Nil
  then show ?case by simp
next
  case (Cons f fs)
  let ?w1 = "print_line (''Skipping '' @ os_path_join (os_path_join outp s) f @ '', already exists.'') w"
  have 1: "process_file E sp outp s S f w = (None, ?w1)"
    using Cons.prems by (simp add: process_file_skip)
  have 2: "\<forall>g \<in> set fs. path_exists ?w1 (os_path_join (os_path_join outp s) g)"
    using Cons.prems by simp
  show ?case using Cons.IH[OF 2] 1 by (simp add: print_line_def)
qed


lemma outputs_exist_cong:
  "dirs w' = dirs w \<Longrightarrow> files w' = files w \<Longrightarrow> outputs_exist E inp outp s w' = outputs_exist E inp outp s w"
  by (simp add: outputs_exist_def path_exists_def)

lemma process_subfolder_all_skipped:
  assumes "outputs_exist E inp outp s w"
  shows "dirs (snd (process_subfolder E inp outp S s w)) = dirs w
       \<and> files (snd (process_subfolder E inp outp S s w)) = files w"
proof (cases "path_exists w (os_path_join inp s)")
  case False
  then show ?thesis by (simp add: process_subfolder_def)
next
  case True
  show ?thesis
  proof (cases "listdir E (os_path_join inp s)")
    case (Inl e)
    then show ?thesis using True by (simp add: process_subfolder_def)
  next
    case (Inr names)
    have "\<forall>f \<in> set (filter is_image_name names). path_exists w (os_path_join (os_path_join outp s) f)"
      using assms True Inr by (simp add: outputs_exist_def)
    from process_files_all_skipped[OF this, of E "os_path_join inp s" S]
    show ?thesis using True Inr by (simp add: process_subfolder_def)
  qed
qed

lemma process_subfolders_all_skipped:
  assumes "\<forall>s \<in> set ss. outputs_exist E inp outp s w"
  shows "dirs (snd (process_subfolders E inp outp S ss w)) = dirs w
       \<and> files (snd (process_subfolders E inp outp S ss w)) = files w"
  using assms
proof (induction ss arbitrary: w)
  case Nil
  then show ?case by simp
next
  case (Cons s ss)
  obtain r1 w1 where ps: "process_subfolder E inp outp S s w = (r1, w1)"
    by (cases "process_subfolder E inp outp S s w") auto
  have same: "dirs w1 = dirs w \<and> files w1 = files w"
    using process_subfolder_all_skipped[of E inp outp s w S] Cons.prems ps by simp
  show ?case
  proof (cases r1)
    case None
    have "\<forall>t \<in> set ss. outputs_exist E inp outp t w1"
      using Cons.prems same outputs_exist_cong[of w1 w E inp outp] by simp
    from Cons.IH[OF this] show ?thesis using ps None same by simp
  next
    case (Some e)
    then show ?thesis using ps same by simp
  qed
qed

text \<open>
  Claim C5. A file whose output path exists is skipped: nothing is loaded, transformed or
  written, only the skip line is printed. No run changes the content of a file that existed
  before it. And a run that finds every output in place (as the second of two runs does when
  the first one wrote them all) leaves directories and files exactly as they were.
\<close>

theorem rerun_skips_existing_outputs:
  "(path_exists w (os_path_join (os_path_join outp s) f) \<longrightarrow>
      process_file E sp outp s S f w
        = (None, print_line (''Skipping '' @ os_path_join (os_path_join outp s) f @ '', already exists.'') w))
   \<and> (\<forall>p b. files w p = Some b \<longrightarrow>
        files (snd (process_and_save_images E inp outp S w)) p = Some b)
   \<and> (path_exists w outp \<and> (\<forall>t \<in> set subfolders. outputs_exist E inp outp t w) \<longrightarrow>
        dirs (snd (process_and_save_images E inp outp S w)) = dirs w
      \<and> files (snd (process_and_save_images E inp outp S w)) = files w)"
proof -
  have 1: "path_exists w (os_path_join (os_path_join outp s) f) \<longrightarrow>
      process_file E sp outp s S f w
        = (None, print_line (''Skipping '' @ os_path_join (os_path_join outp s) f @ '', already exists.'') w)"
    by (simp add: process_file_skip)
  have "files w \<subseteq>\<^sub>m files (snd (process_and_save_images E inp outp S w))"
    using run_mono[of E inp outp S w] by (metis prod.collapse)
  then have 2: "\<forall>p b. files w p = Some b \<longrightarrow>
        files (snd (process_and_save_images E inp outp S w)) p = Some b"
    by (metis domI map_le_def)
  have 3: "path_exists w outp \<and> (\<forall>t \<in> set subfolders. outputs_exist E inp outp t w) \<longrightarrow>
        dirs (snd (process_and_save_images E inp outp S w)) = dirs w
      \<and> files (snd (process_and_save_images E inp outp S w)) = files w"
  proof
    assume h: "path_exists w outp \<and> (\<forall>t \<in> set subfolders. outputs_exist E inp outp t w)"
    then have "ensure_dir E outp w = (None, w)" by (simp add: ensure_dir_there)
    then show "dirs (snd (process_and_save_images E inp outp S w)) = dirs w
      \<and> files (snd (process_and_save_images E inp outp S w)) = files w"
      using process_subfolders_all_skipped[of subfolders E inp outp w S] h by (simp add: run_eq)
  qed
  show ?thesis using 1 2 3 by blast
qed

lemma ex_names:
  "is_image_name ''a.PNG''" "\<not> is_image_name ''notes.txt''" "is_image_name ''b.jpeg''"
  by code_simp+

lemma world2_outputs: "\<forall>t \<in> set subfolders. outputs_exist env0 ''in'' ''out'' t world2"
  by (simp add: subfolders_def outputs_exist_def os_path_join_def path_exists_def world2_def env0_def ex_names)

theorem rerun_skips_existing_outputs_witness:
  "path_exists world2 ''out/0/a.PNG''
   \<and> process_file env0 ''in/0'' ''out'' ''0'' 2000 ''a.PNG'' world2
       = (None, print_line ''Skipping out/0/a.PNG, already exists.'' world2)
   \<and> files world2 ''out/0/a.PNG'' = Some [2]
   \<and> files (snd (process_and_save_images env0 ''in'' ''out'' 2000 world2)) ''out/0/a.PNG'' = Some [2]
   \<and> path_exists world2 ''out''
   \<and> list_all (\<lambda>t. outputs_exist env0 ''in'' ''out'' t world2) subfolders
   \<and> dirs (snd (process_and_save_images env0 ''in'' ''out'' 2000 world2)) = dirs world2
   \<and> files (snd (process_and_save_images env0 ''in'' ''out'' 2000 world2)) = files world2"
proof -
  have a: "path_exists world2 (os_path_join (os_path_join ''out'' ''0'') ''a.PNG'')"
    "path_exists world2 ''out''" "files world2 ''out/0/a.PNG'' = Some [2]"
    by (simp_all add: ex_paths path_exists_def world2_def)
  note t = rerun_skips_existing_outputs[of world2 "''out''" "''0''" "''a.PNG''" env0 "''in/0''" 2000 "''in''"]
  have 1: "process_file env0 ''in/0'' ''out'' ''0'' 2000 ''a.PNG'' world2
       = (None, print_line ''Skipping out/0/a.PNG, already exists.'' world2)"
    using t[THEN conjunct1, THEN mp, OF a(1)] by (simp add: ex_paths)
  have 2: "files (snd (process_and_save_images env0 ''in'' ''out'' 2000 world2)) ''out/0/a.PNG'' = Some [2]"
    using t[THEN conjunct2, THEN conjunct1] a(3) by blast
  have 3: "dirs (snd (process_and_save_images env0 ''in'' ''out'' 2000 world2)) = dirs world2
      \<and> files (snd (process_and_save_images env0 ''in'' ''out'' 2000 world2)) = files world2"
    using t[THEN conjunct2, THEN conjunct2, THEN mp, OF conjI[OF a(2) world2_outputs]] .
  show ?thesis using a 1 2 3 world2_outputs by (simp add: ex_paths list_all_iff)
qed

subsection \<open>Unreadable files\<close>

text \<open>
  Claim C6 says that a failed load is logged. It is not: when \<^verbatim>\<open>cv2.imread\<close> returns
  \<^verbatim>\<open>None\<close> the body of \<^verbatim>\<open>if image_original is not None\<close> is skipped and there is no
  \<^verbatim>\<open>else\<close>. On the example file system the unreadable file \<^verbatim>\<open>b.jpeg\<close> is passed over and
  the console stays empty.
\<close>

theorem load_failure_is_not_logged:
  "\<not> path_exists world0 ''out/0/b.jpeg''
   \<and> fst (ensure_dir env0 ''out/0'' world0) = None
   \<and> imread env0 (snd (ensure_dir env0 ''out/0'' world0)) ''in/0/b.jpeg'' = None
   \<and> fst (process_file env0 ''in/0'' ''out'' ''0'' 2000 ''b.jpeg'' world0) = None
   \<and> stdout (snd (process_file env0 ''in/0'' ''out'' ''0'' 2000 ''b.jpeg'' world0)) = []"
proof -
  have a: "\<not> path_exists world0 (os_path_join (os_path_join ''out'' ''0'') ''b.jpeg'')"
    by (simp add: ex_paths path_exists_def world0_def)
  have c: "ensure_dir env0 (os_path_dirname (os_path_join (os_path_join ''out'' ''0'') ''b.jpeg'')) world0
      = (None, world0\<lparr>dirs := insert ''out/0'' (insert ''out'' (dirs world0))\<rparr>)"
    by (simp add: ex_paths ensure_dir_world0)
  have d: "imread env0 (world0\<lparr>dirs := insert ''out/0'' (insert ''out'' (dirs world0))\<rparr>)
             (os_path_join ''in/0'' ''b.jpeg'') = None"
    by (simp add: ex_paths imread_def world0_def env0_def)
  have e: "stdout world0 = []" by (simp add: world0_def)
  from process_file_load_fails[OF a c d, of 2000] a d e
  show ?thesis by (simp add: ex_paths ensure_dir_world0)
qed

text \<open>
  Claim C6, amended. When the load of a file without output is reached (the guarded
  \<^verbatim>\<open>os.makedirs\<close> before it did not raise) and fails, the file is skipped silently: the
  iteration ends normally in the state the directory step left, so nothing is printed and
  no file is written, and the loop goes on with the next file from that state.
\<close>

theorem load_failure_is_skipped_silently:
  assumes "\<not> path_exists w (os_path_join (os_path_join outp s) f)"
    and "ensure_dir E (os_path_dirname (os_path_join (os_path_join outp s) f)) w = (None, w1)"
    and "imread E w1 (os_path_join sp f) = None"
  shows "process_file E sp outp s S f w = (None, w1)
       \<and> files (snd (process_file E sp outp s S f w)) = files w
       \<and> stdout (snd (process_file E sp outp s S f w)) = stdout w
       \<and> process_files E sp outp s S (f # rest) w = process_files E sp outp s S rest w1"
proof -
  have o: "files w1 = files w \<and> stdout w1 = stdout w"
    using ensure_dir_only_dirs[OF assms(2)] by (simp add: only_dirs_def)
  show ?thesis using process_file_load_fails[OF assms, of S] o by simp
qed

theorem load_failure_is_skipped_silently_witness:
  "\<not> path_exists world0 ''out/0/b.jpeg''
   \<and> ensure_dir env0 ''out/0'' world0
       = (None, world0\<lparr>dirs := insert ''out/0'' (insert ''out'' (dirs world0))\<rparr>)
   \<and> imread env0 (world0\<lparr>dirs := insert ''out/0'' (insert ''out'' (dirs world0))\<rparr>) ''in/0/b.jpeg'' = None
   \<and> process_file env0 ''in/0'' ''out'' ''0'' 2000 ''b.jpeg'' world0
       = (None, world0\<lparr>dirs := insert ''out/0'' (insert ''out'' (dirs world0))\<rparr>)
   \<and> files (snd (process_file env0 ''in/0'' ''out'' ''0'' 2000 ''b.jpeg'' world0)) = files world0
   \<and> stdout (snd (process_file env0 ''in/0'' ''out'' ''0'' 2000 ''b.jpeg'' world0)) = stdout world0"
proof -
  have a: "\<not> path_exists world0 (os_path_join (os_path_join ''out'' ''0'') ''b.jpeg'')"
    by (simp add: ex_paths path_exists_def world0_def)
  have c: "ensure_dir env0 (os_path_dirname (os_path_join (os_path_join ''out'' ''0'') ''b.jpeg'')) world0
      = (None, world0\<lparr>dirs := insert ''out/0'' (insert ''out'' (dirs world0))\<rparr>)"
    by (simp add: ex_paths ensure_dir_world0)
  have d: "imread env0 (world0\<lparr>dirs := insert ''out/0'' (insert ''out'' (dirs world0))\<rparr>)
             (os_path_join ''in/0'' ''b.jpeg'') = None"
    by (simp add: ex_paths imread_def world0_def env0_def)
  from load_failure_is_skipped_silently[OF a c d, of 2000 "[]"] a d
  show ?thesis by (simp add: ex_paths ensure_dir_world0)
qed

subsection \<open>The six subdirectories\<close>








end
